theory Spec2Isabelle
  imports Main "HOL-Library.Word"
begin

section \<open>Python built-ins used by serialmonitor.py\<close>

text \<open>
  A \<open>bytes\<close> object is a list of octets. The text the program prints is a \<open>string\<close>;
  the characters the decoder itself produces (\<open>chr\<close> of one octet, digits, the two
  markers) all lie in the range of \<open>char\<close>.
\<close>

type_synonym bytes = "8 word list"

datatype byteorder = Big | Little

datatype error = SerialException | IndexError

text \<open>\<open>int.from_bytes(bs, byteorder=bo)\<close>, unsigned.\<close>

definition int_from_bytes :: "bytes \<Rightarrow> byteorder \<Rightarrow> int" where
  "int_from_bytes bs bo =
     (case bo of
        Big \<Rightarrow> foldl (\<lambda>acc b. acc * 256 + uint b) 0 bs
      | Little \<Rightarrow> foldr (\<lambda>b acc. uint b + 256 * acc) bs 0)"

text \<open>\<open>chr(i)\<close> for the code points 0..255, the only ones one octet can denote.\<close>

definition chr :: "int \<Rightarrow> char" where
  "chr i = char_of i"

definition digit_char :: "nat \<Rightarrow> char" where
  "digit_char d = ''0123456789abcdef'' ! d"

text \<open>The digits of a natural number in base \<open>b\<close>, most significant first, no leading zero.\<close>

function digits :: "nat \<Rightarrow> nat \<Rightarrow> string" where
  "digits b n =
     (if b < 2 \<or> n < b then [digit_char n]
      else digits b (n div b) @ [digit_char (n mod b)])"
  by pat_completeness auto
termination
  by (relation "measure (\<lambda>(b, n). n)") auto

declare digits.simps [simp del]

text \<open>\<open>str(i)\<close>, \<open>bin(i)\<close> and \<open>hex(i)\<close> of a Python integer.\<close>

definition str_int :: "int \<Rightarrow> string" where
  "str_int i = (if i < 0 then CHR ''-'' # digits 10 (nat (- i)) else digits 10 (nat i))"

definition bin :: "int \<Rightarrow> string" where
  "bin i = (if i < 0 then ''-0b'' @ digits 2 (nat (- i)) else ''0b'' @ digits 2 (nat i))"

definition hex :: "int \<Rightarrow> string" where
  "hex i = (if i < 0 then ''-0x'' @ digits 16 (nat (- i)) else ''0x'' @ digits 16 (nat i))"

text \<open>\<open>s.lstrip(chars)\<close> removes every leading character that occurs in \<open>chars\<close>.\<close>

definition lstrip :: "string \<Rightarrow> string \<Rightarrow> string" where
  "lstrip chars s = dropWhile (\<lambda>c. c \<in> set chars) s"

text \<open>\<open>s.zfill(width)\<close> pads with zeros on the left, after a leading sign.\<close>

definition zfill :: "string \<Rightarrow> nat \<Rightarrow> string" where
  "zfill s width =
     (if width \<le> length s then s
      else (case s of
              [] \<Rightarrow> replicate width CHR ''0''
            | c # cs \<Rightarrow>
                if c = CHR ''+'' \<or> c = CHR ''-''
                then c # replicate (width - length s) CHR ''0'' @ cs
                else replicate (width - length s) CHR ''0'' @ s))"

text \<open>\<open>s.split(sep)\<close> for a separator of one character.\<close>

fun split :: "char \<Rightarrow> string \<Rightarrow> string list" where
  "split sep [] = [[]]"
| "split sep (c # cs) =
     (if c = sep then [] # split sep cs
      else (case split sep cs of
              [] \<Rightarrow> [[c]]
            | t # ts \<Rightarrow> (c # t) # ts))"

text \<open>\<open>xs[i]\<close> on a list: positions from the front, or from the back when \<open>i\<close> is below zero.\<close>

definition py_index :: "'a list \<Rightarrow> int \<Rightarrow> error + 'a" where
  "py_index xs i =
     (if 0 \<le> i \<and> i < int (length xs) then Inr (xs ! nat i)
      else if i < 0 \<and> - int (length xs) \<le> i then Inr (xs ! nat (int (length xs) + i))
      else Inl IndexError)"

text \<open>\<open>xs[count:]\<close>, where \<open>count\<close> may be \<open>None\<close> or negative.\<close>

definition py_slice_from :: "'a list \<Rightarrow> int option \<Rightarrow> 'a list" where
  "py_slice_from xs count =
     (case count of
        None \<Rightarrow> xs
      | Some c \<Rightarrow> if c < 0 then drop (nat (int (length xs) + c)) xs else drop (nat c) xs)"

section \<open>Session: byte and text conversions\<close>

definition byteToInt :: "byteorder \<Rightarrow> bytes \<Rightarrow> int" where
  "byteToInt bo byte = int_from_bytes byte bo"

definition intToBin :: "int \<Rightarrow> string" where
  "intToBin integer = zfill (lstrip ''0b'' (bin integer)) 8"

definition intToHex :: "int \<Rightarrow> string" where
  "intToHex integer = zfill (lstrip ''0x'' (hex integer)) 2"

section \<open>The serial device and SerialWrapper\<close>

text \<open>
  The device is the sequence of outcomes of the successive calls \<open>self.ser.read()\<close>:
  a read of one octet, a timeout (pyserial returns the empty \<open>bytes\<close> object), or a
  raised \<open>SerialException\<close>. \<open>nread\<close> counts the calls made so far.
\<close>

datatype read_event = Timeout | Byte "8 word" | Failure

record SerialWrapper =
  ser :: "nat \<Rightarrow> read_event"
  nread :: nat
  buf :: "bytes list"

definition SerialWrapper_init :: "(nat \<Rightarrow> read_event) \<Rightarrow> SerialWrapper" where
  "SerialWrapper_init dev = \<lparr>ser = dev, nread = 0, buf = []\<rparr>"

definition ser_read :: "SerialWrapper \<Rightarrow> error + (bytes \<times> SerialWrapper)" where
  "ser_read w =
     (case ser w (nread w) of
        Failure \<Rightarrow> Inl SerialException
      | Timeout \<Rightarrow> Inr ([], w\<lparr>nread := Suc (nread w)\<rparr>)
      | Byte b \<Rightarrow> Inr ([b], w\<lparr>nread := Suc (nread w)\<rparr>))"

definition push :: "SerialWrapper \<Rightarrow> error + SerialWrapper" where
  "push w =
     (case ser_read w of
        Inl e \<Rightarrow> Inl e
      | Inr (byte, w') \<Rightarrow> Inr (w'\<lparr>buf := buf w' @ [byte]\<rparr>))"

function peek :: "int \<Rightarrow> SerialWrapper \<Rightarrow> error + (bytes \<times> SerialWrapper)" where
  "peek index w =
     (if int (length (buf w)) \<le> index
      then (case push w of
              Inl e \<Rightarrow> Inl e
            | Inr w' \<Rightarrow> peek index w')
      else (case py_index (buf w) index of
              Inl e \<Rightarrow> Inl e
            | Inr byte \<Rightarrow> Inr (byte, w)))"
  by pat_completeness auto
termination
  by (relation "measure (\<lambda>(index, w). nat (index + 1 - int (length (buf w))))")
     (auto simp: push_def ser_read_def split: read_event.splits)

declare peek.simps [simp del]

definition pop :: "int option \<Rightarrow> SerialWrapper \<Rightarrow> SerialWrapper" where
  "pop count w = w\<lparr>buf := py_slice_from (buf w) count\<rparr>"

section \<open>SerialStream\<close>

record SerialStream =
  ptr :: int

definition SerialStream_init :: SerialStream where
  "SerialStream_init = \<lparr>ptr = 0\<rparr>"

definition SerialStream_read ::
  "SerialStream \<Rightarrow> SerialWrapper \<Rightarrow> error + (bytes \<times> SerialStream \<times> SerialWrapper)" where
  "SerialStream_read s w =
     (case peek (ptr s) w of
        Inl e \<Rightarrow> Inl e
      | Inr (byte, w') \<Rightarrow> Inr (byte, s\<lparr>ptr := ptr s + 1\<rparr>, w'))"

definition trim :: "SerialStream \<Rightarrow> int \<Rightarrow> SerialStream" where
  "trim s index = s\<lparr>ptr := ptr s - index\<rparr>"

definition getIndex :: "SerialStream \<Rightarrow> int" where
  "getIndex s = ptr s"

section \<open>Escape handlers\<close>

datatype EscapeHandler =
  BinByte | HexByte | IntegerByte | IntegerWord | AsciiByte
  | DiscardByte | RecursiveByte | Newline | Tab

fun getChar :: "EscapeHandler \<Rightarrow> char" where
  "getChar BinByte = CHR ''b''"
| "getChar HexByte = CHR ''h''"
| "getChar IntegerByte = CHR ''i''"
| "getChar IntegerWord = CHR ''d''"
| "getChar AsciiByte = CHR ''a''"
| "getChar DiscardByte = CHR ''x''"
| "getChar RecursiveByte = CHR ''e''"
| "getChar Newline = CHR ''n''"
| "getChar Tab = CHR ''t''"

definition escapeHandlers :: "EscapeHandler list" where
  "escapeHandlers =
     [BinByte, HexByte, IntegerByte, IntegerWord, AsciiByte,
      DiscardByte, RecursiveByte, Newline, Tab]"

type_synonym outcome = "error + (string \<times> SerialStream \<times> SerialWrapper)"

text \<open>
  \<open>process h bo s w\<close> is \<open>h.process(stream, session)\<close> and \<open>processEscape bo c s w\<close> is
  \<open>session.processEscape(c, stream)\<close>, for a session with byte order \<open>bo\<close> and wrapper
  \<open>w\<close>. The result holds the text returned and the stream and wrapper as mutated.
\<close>

function process :: "EscapeHandler \<Rightarrow> byteorder \<Rightarrow> SerialStream \<Rightarrow> SerialWrapper \<Rightarrow> outcome"
  and processEscape :: "byteorder \<Rightarrow> char \<Rightarrow> SerialStream \<Rightarrow> SerialWrapper \<Rightarrow> outcome" where
  "process BinByte bo s w =
     (case SerialStream_read s w of
        Inl e \<Rightarrow> Inl e
      | Inr (byte, s', w') \<Rightarrow> Inr (intToBin (byteToInt bo byte), s', w'))"
| "process HexByte bo s w =
     (case SerialStream_read s w of
        Inl e \<Rightarrow> Inl e
      | Inr (byte, s', w') \<Rightarrow> Inr (intToHex (byteToInt bo byte), s', w'))"
| "process IntegerByte bo s w =
     (case SerialStream_read s w of
        Inl e \<Rightarrow> Inl e
      | Inr (byte, s', w') \<Rightarrow> Inr (str_int (byteToInt bo byte), s', w'))"
| "process IntegerWord bo s w =
     (case SerialStream_read s w of
        Inl e \<Rightarrow> Inl e
      | Inr (first, s1, w1) \<Rightarrow>
          (case SerialStream_read s1 w1 of
             Inl e \<Rightarrow> Inl e
           | Inr (second, s2, w2) \<Rightarrow>
               Inr (str_int (or (push_bit 8 (byteToInt bo first)) (byteToInt bo second)),
                    s2, w2)))"
| "process AsciiByte bo s w =
     (case SerialStream_read s w of
        Inl e \<Rightarrow> Inl e
      | Inr (byte, s', w') \<Rightarrow> Inr ([chr (byteToInt bo byte)], s', w'))"
| "process DiscardByte bo s w =
     (case SerialStream_read s w of
        Inl e \<Rightarrow> Inl e
      | Inr (byte, s', w') \<Rightarrow> Inr ([], s', w'))"
| "process RecursiveByte bo s w =
     (case SerialStream_read s w of
        Inl e \<Rightarrow> Inl e
      | Inr (byte, s', w') \<Rightarrow>
          (if chr (byteToInt bo byte) = getChar RecursiveByte
           then Inr (''<RECESC>'', s', w')
           else processEscape bo (chr (byteToInt bo byte)) s' w'))"
| "process Newline bo s w = Inr ([CHR 0x0A], s, w)"
| "process Tab bo s w = Inr ([CHR 0x09], s, w)"
| "processEscape bo escape s w =
     (case find (\<lambda>h. escape = getChar h) escapeHandlers of
        Some h \<Rightarrow> process h bo s w
      | None \<Rightarrow> Inr (''<BADESC>'', s, w))"
  by pat_completeness auto
termination
proof (relation "measure (\<lambda>x. case x of
          Inl (h, _) \<Rightarrow> (if h = RecursiveByte then 2 else 0)
        | Inr (_, c, _) \<Rightarrow> (if c = CHR ''e'' then 3 else 1))", goal_cases)
  case 1
  show ?case by simp
next
  case (2 bo s w x2 x y x1 x2a)
  then show ?case by simp
next
  case (3 bo escape s w x2)
  then show ?case
    by (cases x2) (auto simp: find_Some_iff)
qed

declare processEscape.simps [simp del]

section \<open>Session\<close>

record Session =
  sw :: SerialWrapper
  escape :: char
  byteorder :: byteorder
  formats :: "string list"
  buffer :: bool
  streams :: "SerialStream list"

text \<open>\<open>Session.__init__\<close>: the default template, and one fresh stream per template.\<close>

definition Session_init ::
  "SerialWrapper \<Rightarrow> char \<Rightarrow> byteorder \<Rightarrow> string list option \<Rightarrow> bool \<Rightarrow> Session" where
  "Session_init w esc bo fmts bf =
     (let fs = (case fmts of Some fs \<Rightarrow> fs | None \<Rightarrow> [[esc, CHR ''a'']])
      in \<lparr>sw = w, escape = esc, byteorder = bo, formats = fs, buffer = bf,
          streams = map (\<lambda>f. SerialStream_init) fs\<rparr>)"

text \<open>
  The inner loop of \<open>Session.read\<close> over the tokens that follow an escape character. The
  text appended to \<open>buf\<close> is returned.
\<close>

fun process_toks ::
  "byteorder \<Rightarrow> char \<Rightarrow> string list \<Rightarrow> SerialStream \<Rightarrow> SerialWrapper \<Rightarrow> outcome" where
  "process_toks bo esc [] s w = Inr ([], s, w)"
| "process_toks bo esc (t # toks) s w =
     (case (case t of
              c # cs \<Rightarrow>
                (case processEscape bo c s w of
                   Inl e \<Rightarrow> Inl e
                 | Inr (out, s', w') \<Rightarrow> Inr (out @ cs, s', w'))
            | [] \<Rightarrow> processEscape bo esc s w) of
        Inl e \<Rightarrow> Inl e
      | Inr (out, s', w') \<Rightarrow>
          (case process_toks bo esc toks s' w' of
             Inl e \<Rightarrow> Inl e
           | Inr (rest, s'', w'') \<Rightarrow> Inr (out @ rest, s'', w'')))"

text \<open>One template: \<open>toks = f.split(self.escape)\<close>, \<open>toks[0]\<close>, then the tokens.\<close>

definition process_format ::
  "byteorder \<Rightarrow> char \<Rightarrow> string \<Rightarrow> SerialStream \<Rightarrow> SerialWrapper \<Rightarrow> outcome" where
  "process_format bo esc f s w =
     (case split esc f of
        [] \<Rightarrow> Inl IndexError
      | t0 # toks \<Rightarrow>
          (case process_toks bo esc toks s w of
             Inl e \<Rightarrow> Inl e
           | Inr (out, s', w') \<Rightarrow> Inr (t0 @ out, s', w')))"

text \<open>The outer loop over \<open>zip(self.formats, self.streams)\<close>.\<close>

fun process_formats ::
  "byteorder \<Rightarrow> char \<Rightarrow> (string \<times> SerialStream) list \<Rightarrow> SerialWrapper
   \<Rightarrow> error + (string \<times> SerialStream list \<times> SerialWrapper)" where
  "process_formats bo esc [] w = Inr ([], [], w)"
| "process_formats bo esc ((f, s) # fss) w =
     (case process_format bo esc f s w of
        Inl e \<Rightarrow> Inl e
      | Inr (out, s', w') \<Rightarrow>
          (case process_formats bo esc fss w' of
             Inl e \<Rightarrow> Inl e
           | Inr (rest, ss', w'') \<Rightarrow> Inr (out @ rest, s' # ss', w'')))"

text \<open>The loop that finds \<open>minInd\<close> (buffered mode).\<close>

fun minInd_loop :: "int option \<Rightarrow> SerialStream list \<Rightarrow> int option" where
  "minInd_loop minInd [] = minInd"
| "minInd_loop minInd (s # ss) =
     minInd_loop
       (case minInd of
          None \<Rightarrow> Some (getIndex s)
        | Some m \<Rightarrow> if m > getIndex s then Some (getIndex s) else Some m)
       ss"

text \<open>
  The loop that finds \<open>maxInd\<close> and rewinds each stream by its own index
  (synchronized mode).
\<close>

fun maxInd_loop :: "int option \<Rightarrow> SerialStream list \<Rightarrow> int option \<times> SerialStream list" where
  "maxInd_loop maxInd [] = (maxInd, [])"
| "maxInd_loop maxInd (s # ss) =
     (let maxInd' = (case maxInd of
                       None \<Rightarrow> Some (getIndex s)
                     | Some m \<Rightarrow> if m < getIndex s then Some (getIndex s) else Some m);
          s' = trim s (getIndex s);
          (r, ss') = maxInd_loop maxInd' ss
      in (r, s' # ss'))"

text \<open>
  The second half of \<open>Session.read\<close>. In buffered mode the rewinding loop runs only when
  there is a stream, and then \<open>minInd\<close> is an integer.
\<close>

definition reconcile :: "Session \<Rightarrow> Session" where
  "reconcile sess =
     (if buffer sess
      then (let minInd = minInd_loop None (streams sess)
            in sess\<lparr>streams := (case minInd of
                                   None \<Rightarrow> streams sess
                                 | Some m \<Rightarrow> map (\<lambda>s. trim s m) (streams sess)),
                     sw := pop minInd (sw sess)\<rparr>)
      else (let (maxInd, ss') = maxInd_loop None (streams sess)
            in sess\<lparr>streams := ss', sw := pop maxInd (sw sess)\<rparr>))"

text \<open>
  The first half of \<open>Session.read\<close>: every template against its stream. \<open>zip\<close> stops at
  the shorter list; streams beyond it are left as they are.
\<close>

definition decode :: "Session \<Rightarrow> error + (string \<times> Session)" where
  "decode sess =
     (case process_formats (byteorder sess) (escape sess)
             (zip (formats sess) (streams sess)) (sw sess) of
        Inl e \<Rightarrow> Inl e
      | Inr (out, ss', w') \<Rightarrow>
          Inr (out, sess\<lparr>streams := ss' @ drop (length ss') (streams sess), sw := w'\<rparr>))"

definition Session_read :: "Session \<Rightarrow> error + (string \<times> Session)" where
  "Session_read sess =
     (case decode sess of
        Inl e \<Rightarrow> Inl e
      | Inr (out, sess') \<Rightarrow> Inr (out, reconcile sess'))"

text \<open>The first \<open>n\<close> iterations of the loop of \<open>main\<close>, with the lines written.\<close>

fun rounds :: "nat \<Rightarrow> Session \<Rightarrow> error + (string list \<times> Session)" where
  "rounds 0 sess = Inr ([], sess)"
| "rounds (Suc n) sess =
     (case Session_read sess of
        Inl e \<Rightarrow> Inl e
      | Inr (line, sess') \<Rightarrow>
          (case rounds n sess' of
             Inl e \<Rightarrow> Inl e
           | Inr (ls, sess'') \<Rightarrow> Inr (line # ls, sess'')))"

section \<open>Reading a rendering\<close>

text \<open>
  The significant digits of \<open>n\<close> in base \<open>b\<close>: none for zero, and no leading zero
  otherwise. A fixed-width rendering is these digits behind a run of zeros.
\<close>

definition significant :: "nat \<Rightarrow> nat \<Rightarrow> string" where
  "significant b n = (if n = 0 then [] else digits b n)"


section \<open>Invariants of wrapper, streams and session\<close>

text \<open>What \<open>ser.read()\<close> hands to \<open>push\<close> for an outcome that is not a failure.\<close>

definition bytes_of :: "read_event \<Rightarrow> bytes" where
  "bytes_of ev = (case ev of Byte b \<Rightarrow> [b] | Timeout \<Rightarrow> [] | Failure \<Rightarrow> [])"

text \<open>
  \<open>base w\<close> is the number of reads that have left the buffer again: the buffer of a
  wrapper in its \<open>window\<close> holds exactly the reads \<open>base w\<close>, ..., \<open>nread w - 1\<close> of the
  device, so offset \<open>p\<close> of the buffer is read number \<open>base w + p\<close>.
\<close>

definition base :: "SerialWrapper \<Rightarrow> nat" where
  "base w = nread w - length (buf w)"

definition window :: "SerialWrapper \<Rightarrow> bool" where
  "window w \<longleftrightarrow>
     length (buf w) \<le> nread w \<and> buf w = map (\<lambda>k. bytes_of (ser w k)) [base w ..< nread w]"

text \<open>\<open>extends w w'\<close>: \<open>w'\<close> is \<open>w\<close> after some further reads, all appended to the buffer.\<close>

definition extends :: "SerialWrapper \<Rightarrow> SerialWrapper \<Rightarrow> bool" where
  "extends w w' \<longleftrightarrow>
     ser w' = ser w \<and> nread w \<le> nread w' \<and>
     buf w' = buf w @ map (\<lambda>k. bytes_of (ser w k)) [nread w ..< nread w']"

text \<open>
  \<open>advances s w s' w'\<close>: what any amount of decoding does to a stream and the wrapper.
  The cursor never moves back, and a cursor that started inside the buffer or at its
  end leaves the buffer exactly as long as the furthest offset reached requires.
\<close>

definition advances ::
  "SerialStream \<Rightarrow> SerialWrapper \<Rightarrow> SerialStream \<Rightarrow> SerialWrapper \<Rightarrow> bool" where
  "advances s w s' w' \<longleftrightarrow>
     extends w w' \<and> ptr s \<le> ptr s' \<and>
     (ptr s \<le> int (length (buf w)) \<longrightarrow>
        int (length (buf w')) = max (int (length (buf w))) (ptr s'))"

definition cursors_nonneg :: "Session \<Rightarrow> bool" where
  "cursors_nonneg sess \<longleftrightarrow> list_all (\<lambda>s. 0 \<le> ptr s) (streams sess)"

definition cursors_within :: "Session \<Rightarrow> bool" where
  "cursors_within sess \<longleftrightarrow>
     list_all (\<lambda>s. ptr s \<le> int (length (buf (sw sess)))) (streams sess)"

text \<open>
  \<open>tight\<close>: the buffer ends where the furthest cursor stands. It holds at the start of a
  session and after every round, since bytes are pulled on demand only.
\<close>

definition tight :: "Session \<Rightarrow> bool" where
  "tight sess \<longleftrightarrow>
     streams sess \<noteq> [] \<and> int (length (buf (sw sess))) = Max (ptr ` set (streams sess))"

text \<open>Every element of the buffer is what one \<open>ser.read()\<close> returned: at most one octet.\<close>

definition single_reads :: "SerialWrapper \<Rightarrow> bool" where
  "single_reads w \<longleftrightarrow> list_all (\<lambda>b. length b \<le> 1) (buf w)"

text \<open>The device raises on no read that is still to come.\<close>

definition never_fails :: "SerialWrapper \<Rightarrow> bool" where
  "never_fails w \<longleftrightarrow> (\<forall>k. nread w \<le> k \<longrightarrow> ser w k \<noteq> Failure)"

text \<open>
  The state a session is in between rounds: every cursor is inside the buffer or at its
  end, and the buffer is a window of the device's reads.
\<close>

definition session_inv :: "Session \<Rightarrow> bool" where
  "session_inv sess \<longleftrightarrow> cursors_nonneg sess \<and> cursors_within sess \<and> window (sw sess)"

section \<open>Devices for concrete runs\<close>

definition dev_A :: "nat \<Rightarrow> read_event" where
  "dev_A n = Byte 0x41"

definition dev_five :: "nat \<Rightarrow> read_event" where
  "dev_five n = Byte 0x05"

definition dev_e :: "nat \<Rightarrow> read_event" where
  "dev_e n = Byte 0x65"

definition dev_count :: "nat \<Rightarrow> read_event" where
  "dev_count n = Byte (of_nat (Suc n))"


definition dev_alpha :: "nat \<Rightarrow> read_event" where
  "dev_alpha n = Byte (of_nat (65 + n))"

text \<open>
  The session of the scenario with the templates \<open>%a\<close> and \<open>%a%a%a\<close> on the bytes
  0x41, 0x42, ..., in either mode.
\<close>

definition scenario :: "bool \<Rightarrow> Session" where
  "scenario bf =
     Session_init (SerialWrapper_init dev_alpha) CHR ''%'' Big (Some [''%a'', ''%a%a%a'']) bf"

text \<open>The states this session passes through: reads made, buffer, mode, cursor offsets.\<close>

definition scenario_at :: "nat \<Rightarrow> bytes list \<Rightarrow> bool \<Rightarrow> int list \<Rightarrow> Session" where
  "scenario_at k b bf ps =
     \<lparr>sw = \<lparr>ser = dev_alpha, nread = k, buf = b\<rparr>,
      escape = CHR ''%'', byteorder = Big, formats = [''%a'', ''%a%a%a''],
      buffer = bf, streams = map (\<lambda>p. \<lparr>ptr = p\<rparr>) ps\<rparr>"

text \<open>
  A device whose first two bytes are the characters \<open>n\<close> and \<open>d\<close>, and the buffered
  session that decodes it with the templates \<open>%e\<close> and \<open>%x%x\<close>.
\<close>

definition dev_nd :: "nat \<Rightarrow> read_event" where
  "dev_nd n = (if n = 0 then Byte 0x6E else if n = 1 then Byte 0x64 else Byte (of_nat n))"

definition dynamic_session :: Session where
  "dynamic_session =
     Session_init (SerialWrapper_init dev_nd) CHR ''%'' Big (Some [''%e'', ''%x%x'']) True"

definition dynamic_at :: "nat \<Rightarrow> bytes list \<Rightarrow> int list \<Rightarrow> Session" where
  "dynamic_at k b ps =
     \<lparr>sw = \<lparr>ser = dev_nd, nread = k, buf = b\<rparr>,
      escape = CHR ''%'', byteorder = Big, formats = [''%e'', ''%x%x''],
      buffer = True, streams = map (\<lambda>p. \<lparr>ptr = p\<rparr>) ps\<rparr>"

section \<open>Consumption per round, in the words of the specification\<close>

text \<open>
  The bytes each template consumed in the round that decodes \<open>sess\<close> into \<open>mid\<close>, and
  the sum over the first \<open>n\<close> rounds of the largest minus the smallest consumption.
\<close>

definition consumed :: "Session \<Rightarrow> Session \<Rightarrow> int list" where
  "consumed sess mid = map (\<lambda>(s, s'). ptr s' - ptr s) (zip (streams sess) (streams mid))"

fun spread_sum :: "nat \<Rightarrow> Session \<Rightarrow> int" where
  "spread_sum 0 sess = 0"
| "spread_sum (Suc n) sess =
     (case decode sess of
        Inl e \<Rightarrow> 0
      | Inr (out, mid) \<Rightarrow>
          Max (set (consumed sess mid)) - Min (set (consumed sess mid))
          + spread_sum n (reconcile mid))"

section \<open>Properties of the conversions\<close>

lemma digits_small: "n < b \<Longrightarrow> digits b n = [digit_char n]"
  by (subst digits.simps) simp

lemma digits_length_le:
  "2 \<le> b \<Longrightarrow> n < b ^ Suc k \<Longrightarrow> length (digits b n) \<le> Suc k"
proof (induction k arbitrary: n)
  case 0
  then show ?case by (simp add: digits_small)
next
  case (Suc k)
  show ?case
  proof (cases "n < b")
    case True
    then show ?thesis by (simp add: digits_small)
  next
    case False
    have "n div b < b ^ Suc k"
      using Suc.prems by (simp add: less_mult_imp_div_less mult.commute)
    then have "length (digits b (n div b)) \<le> Suc k"
      using Suc.IH Suc.prems(1) by blast
    moreover have "digits b n = digits b (n div b) @ [digit_char (n mod b)]"
      using False Suc.prems(1) by (subst digits.simps) simp
    ultimately show ?thesis by simp
  qed
qed

lemma digits_leading:
  "2 \<le> b \<Longrightarrow> 0 < n \<Longrightarrow> \<exists>d ds. digits b n = digit_char d # ds \<and> 0 < d \<and> d < b"
proof (induction b n rule: digits.induct)
  case (1 b n)
  show ?case
  proof (cases "n < b")
    case True
    then show ?thesis using "1.prems" by (auto simp: digits_small)
  next
    case False
    then have pos: "0 < n div b" using "1.prems"
      by (simp add: div_greater_zero_iff)
    have "\<exists>d ds. digits b (n div b) = digit_char d # ds \<and> 0 < d \<and> d < b"
      using "1.IH" False "1.prems"(1) pos by simp
    moreover have "digits b n = digits b (n div b) @ [digit_char (n mod b)]"
      using False "1.prems"(1) by (subst digits.simps) simp
    ultimately show ?thesis by auto
  qed
qed

lemma digit_char_bin: "0 < d \<Longrightarrow> d < 2 \<Longrightarrow> digit_char d \<notin> set ''0b'' \<and> digit_char d \<noteq> CHR ''+'' \<and> digit_char d \<noteq> CHR ''-''"
proof -
  assume "0 < d" "d < 2"
  then have "d = 1" by simp
  then show ?thesis by (simp add: digit_char_def)
qed

lemma digit_char_hex: "0 < d \<Longrightarrow> d < 16 \<Longrightarrow> digit_char d \<notin> set ''0x'' \<and> digit_char d \<noteq> CHR ''+'' \<and> digit_char d \<noteq> CHR ''-''"
proof -
  assume "0 < d" "d < 16"
  then have "d \<in> {1,2,3,4,5,6,7,8,9,10,11,12,13,14,15}" by simp arith
  then show ?thesis by (auto simp: digit_char_def)
qed


lemma zfill_plain:
  "s = [] \<or> (hd s \<noteq> CHR ''+'' \<and> hd s \<noteq> CHR ''-'') \<Longrightarrow> length s \<le> k \<Longrightarrow>
   zfill s k = replicate (k - length s) CHR ''0'' @ s"
  by (cases s) (auto simp: zfill_def)

lemma intToBin_nat:
  assumes "n < 256"
  shows "intToBin (int n) = replicate (8 - length (significant 2 n)) CHR ''0'' @ significant 2 n
         \<and> length (significant 2 n) \<le> 8"
proof (cases "n = 0")
  case True
  then show ?thesis
    by (simp add: intToBin_def bin_def lstrip_def digits_small digit_char_def zfill_def
        significant_def)
next
  case False
  then obtain d ds where ds: "digits 2 n = digit_char d # ds" "0 < d" "d < 2"
    using digits_leading [of 2 n] by auto
  have len: "length (digits 2 n) \<le> 8"
    using digits_length_le [of 2 n 7] assms by simp
  have strip: "lstrip ''0b'' (bin (int n)) = digits 2 n"
    using ds digit_char_bin [of d] by (simp add: lstrip_def bin_def)
  show ?thesis
    using False len ds digit_char_bin [of d]
    by (simp add: intToBin_def strip significant_def zfill_plain)
qed

lemma intToHex_nat:
  assumes "n < 256"
  shows "intToHex (int n) = replicate (2 - length (significant 16 n)) CHR ''0'' @ significant 16 n
         \<and> length (significant 16 n) \<le> 2"
proof (cases "n = 0")
  case True
  then show ?thesis
    by (simp add: intToHex_def hex_def lstrip_def digits_small digit_char_def zfill_def
        significant_def)
next
  case False
  then obtain d ds where ds: "digits 16 n = digit_char d # ds" "0 < d" "d < 16"
    using digits_leading [of 16 n] by auto
  have len: "length (digits 16 n) \<le> 2"
    using digits_length_le [of 16 n 1] assms by simp
  have strip: "lstrip ''0x'' (hex (int n)) = digits 16 n"
    using ds digit_char_hex [of d] by (simp add: lstrip_def hex_def)
  show ?thesis
    using False len ds digit_char_hex [of d]
    by (simp add: intToHex_def strip significant_def zfill_plain)
qed

lemma byteToInt_single: "byteToInt bo [b] = uint b"
  by (cases bo) (simp_all add: byteToInt_def int_from_bytes_def)

lemma byteToInt_empty: "byteToInt bo [] = 0"
  by (cases bo) (simp_all add: byteToInt_def int_from_bytes_def)

lemma uint_byte_nat: "uint (b :: 8 word) = int (unat b) \<and> unat b < 256"
  using unsigned_less [of b, where ?'a = nat] by simp

lemma render_5: "intToHex 5 = ''05''" "intToBin 5 = ''00000101''"
  by code_simp+

lemma render_0: "intToHex 0 = ''00''" "intToBin 0 = ''00000000''"
  by code_simp+

lemma renderings_of_byte:
  fixes b :: "8 word"
  shows "length (intToHex (byteToInt bo [b])) = 2
       \<and> length (intToBin (byteToInt bo [b])) = 8
       \<and> intToHex (byteToInt bo [b]) =
           replicate (2 - length (significant 16 (unat b))) CHR ''0'' @ significant 16 (unat b)
       \<and> intToBin (byteToInt bo [b]) =
           replicate (8 - length (significant 2 (unat b))) CHR ''0'' @ significant 2 (unat b)
       \<and> intToHex (byteToInt bo [0x05]) = ''05''
       \<and> intToBin (byteToInt bo [0x05]) = ''00000101''
       \<and> intToHex (byteToInt bo [0x00]) = ''00''
       \<and> intToBin (byteToInt bo [0x00]) = ''00000000''"
proof -
  have n: "byteToInt bo [b] = int (unat b)" "unat b < 256"
    using uint_byte_nat [of b] by (simp_all add: byteToInt_single)
  have h: "intToHex (int (unat b)) =
      replicate (2 - length (significant 16 (unat b))) CHR ''0'' @ significant 16 (unat b)"
    and hl: "length (significant 16 (unat b)) \<le> 2"
    using intToHex_nat [OF n(2)] by simp_all
  have bn: "intToBin (int (unat b)) =
      replicate (8 - length (significant 2 (unat b))) CHR ''0'' @ significant 2 (unat b)"
    and bl: "length (significant 2 (unat b)) \<le> 8"
    using intToBin_nat [OF n(2)] by simp_all
  have l1: "length (intToHex (byteToInt bo [b])) = 2"
    unfolding n(1) by (subst h) (use hl in simp)
  have l2: "length (intToBin (byteToInt bo [b])) = 8"
    unfolding n(1) by (subst bn) (use bl in simp)
  have e1: "intToHex (byteToInt bo [0x05]) = ''05''"
    unfolding byteToInt_single using render_5 by simp
  have e2: "intToBin (byteToInt bo [0x05]) = ''00000101''"
    unfolding byteToInt_single using render_5 by simp
  have e3: "intToHex (byteToInt bo [0x00]) = ''00''"
    unfolding byteToInt_single using render_0 by simp
  have e4: "intToBin (byteToInt bo [0x00]) = ''00000000''"
    unfolding byteToInt_single using render_0 by simp
  have h': "intToHex (byteToInt bo [b]) =
      replicate (2 - length (significant 16 (unat b))) CHR ''0'' @ significant 16 (unat b)"
    unfolding n(1) by (rule h)
  have bn': "intToBin (byteToInt bo [b]) =
      replicate (8 - length (significant 2 (unat b))) CHR ''0'' @ significant 2 (unat b)"
    unfolding n(1) by (rule bn)
  show ?thesis
    by (intro conjI l1 l2 h' bn' e1 e2 e3 e4)
qed

section \<open>Properties of the escape handlers\<close>

lemma processEscape_unknown:
  "c \<notin> getChar ` set escapeHandlers \<Longrightarrow> processEscape bo c s w = Inr (''<BADESC>'', s, w)"
proof -
  assume "c \<notin> getChar ` set escapeHandlers"
  then have "find (\<lambda>h. c = getChar h) escapeHandlers = None"
    by (auto simp: find_None_iff)
  then show ?thesis by (simp add: processEscape.simps)
qed

lemma processEscape_codes:
  "processEscape bo CHR ''b'' s w = process BinByte bo s w"
  "processEscape bo CHR ''h'' s w = process HexByte bo s w"
  "processEscape bo CHR ''i'' s w = process IntegerByte bo s w"
  "processEscape bo CHR ''d'' s w = process IntegerWord bo s w"
  "processEscape bo CHR ''a'' s w = process AsciiByte bo s w"
  "processEscape bo CHR ''x'' s w = process DiscardByte bo s w"
  "processEscape bo CHR ''e'' s w = process RecursiveByte bo s w"
  "processEscape bo CHR ''n'' s w = process Newline bo s w"
  "processEscape bo CHR ''t'' s w = process Tab bo s w"
  by (simp_all add: processEscape.simps escapeHandlers_def)

lemma processEscape_known:
  "processEscape bo (getChar h) s w = process h bo s w"
  by (cases h) (simp_all add: processEscape_codes)

lemma SerialStream_read_ptr:
  "SerialStream_read s w = Inr (byte, s', w') \<Longrightarrow> ptr s' = ptr s + 1"
  by (auto simp: SerialStream_read_def split: sum.splits)

lemma str_258: "str_int 258 = ''258''"
  by code_simp


text \<open>
  C7. An escape code that matches no handler (such as \<open>z\<close> in \<open>%z\<close>) yields the
  literal \<open><BADESC>\<close> and leaves the stream and the wrapper as they were: nothing is
  read, the cursor keeps its offset, and the rest of the template is processed as if the
  occurrence were that literal text.
\<close>

theorem unknown_escape_badesc:
  assumes "c \<notin> getChar ` set escapeHandlers"
  shows "processEscape bo c s w = Inr (''<BADESC>'', s, w)
       \<and> process_toks bo esc ((c # cs) # toks) s w =
           (case process_toks bo esc toks s w of
              Inl e \<Rightarrow> Inl e
            | Inr (rest, s', w') \<Rightarrow> Inr (''<BADESC>'' @ cs @ rest, s', w'))"
  using processEscape_unknown [OF assms]
  by (simp split: sum.splits)

text \<open>
  C5. When the byte read by the \<open>e\<close> handler decodes to the character \<open>e\<close>, the
  handler returns the literal \<open><RECESC>\<close> in the state right after that one read: the
  cursor has advanced by exactly 1 and no further dispatch takes place.
\<close>

theorem recursive_guard:
  assumes "SerialStream_read s w = Inr (byte, s', w')"
    and "chr (byteToInt bo byte) = CHR ''e''"
  shows "processEscape bo CHR ''e'' s w = Inr (''<RECESC>'', s', w') \<and> ptr s' = ptr s + 1"
  using assms SerialStream_read_ptr [OF assms(1)]
  by (simp add: processEscape_codes)

lemma shift_or_bytes:
  fixes b1 b2 :: "8 word"
  shows "or (push_bit 8 (uint b1)) (uint b2) = 256 * uint b1 + uint b2"
proof -
  have "\<not> bit (push_bit 8 (uint b1)) n \<or> \<not> bit (uint b2) n" for n
    by (cases "n < 8") (auto simp: bit_push_bit_iff bit_uint_iff dest: bit_imp_le_length)
  then have "push_bit 8 (uint b1) + uint b2 = or (push_bit 8 (uint b1)) (uint b2)"
    by (rule disjunctive_add)
  then show ?thesis by (simp add: push_bit_eq_mult)
qed

text \<open>
  C6. Under either byte order, the \<open>d\<close> handler performs exactly two reads and returns
  the decimal text of \<open>(first << 8) | second\<close>, that is \<open>256 * first + second\<close>, the
  byte read first being the high one; on the next bytes 0x01, 0x02 this is the text
  \<open>258\<close>.
\<close>

theorem word_decimal_big_endian:
  assumes "SerialStream_read s w = Inr ([b1], s1, w1)"
    and "SerialStream_read s1 w1 = Inr ([b2], s2, w2)"
  shows "processEscape bo CHR ''d'' s w =
           Inr (str_int (or (push_bit 8 (uint b1)) (uint b2)), s2, w2)
       \<and> or (push_bit 8 (uint b1)) (uint b2) = 256 * uint b1 + uint b2
       \<and> ptr s2 = ptr s + 2
       \<and> (b1 = 0x01 \<and> b2 = 0x02 \<longrightarrow>
            processEscape bo CHR ''d'' s w = Inr (''258'', s2, w2))"
proof -
  have r: "processEscape bo CHR ''d'' s w =
      Inr (str_int (or (push_bit 8 (uint b1)) (uint b2)), s2, w2)"
    using assms by (simp add: processEscape_codes byteToInt_single)
  have p: "ptr s2 = ptr s + 2"
    using SerialStream_read_ptr [OF assms(1)] SerialStream_read_ptr [OF assms(2)] by simp
  have v: "or (push_bit 8 (uint (0x01 :: 8 word))) (uint (0x02 :: 8 word)) = 258"
    by simp
  have "processEscape bo CHR ''d'' s w = Inr (''258'', s2, w2)" if "b1 = 0x01 \<and> b2 = 0x02"
    using r that v by (simp add: str_258)
  then show ?thesis using r p shift_or_bytes [of b1 b2] by blast
qed

lemma chr_values: "chr 101 = CHR ''e''" "chr 65 = CHR ''A''"
  by (simp_all add: chr_def char_of_def)

lemmas run_defs =
  SerialStream_read_def peek.simps push_def ser_read_def py_index_def
  SerialWrapper_init_def SerialStream_init_def

text \<open>
  C8. For every byte value 0..255, under either byte order, the \<open>h\<close> operation prints
  \<open>intToHex\<close> of the byte it reads and the \<open>b\<close> operation prints \<open>intToBin\<close> of it;
  the hexadecimal rendering has exactly 2 characters and the binary rendering exactly 8,
  each being the significant digits of the value behind zeros on the left. Byte 0x05
  renders as \<open>05\<close> and \<open>00000101\<close>, byte 0x00 as \<open>00\<close> and \<open>00000000\<close>.
\<close>

theorem fixed_width_renderings:
  fixes b :: "8 word"
  shows "length (intToHex (byteToInt bo [b])) = 2
       \<and> length (intToBin (byteToInt bo [b])) = 8
       \<and> intToHex (byteToInt bo [b]) =
           replicate (2 - length (significant 16 (unat b))) CHR ''0'' @ significant 16 (unat b)
       \<and> intToBin (byteToInt bo [b]) =
           replicate (8 - length (significant 2 (unat b))) CHR ''0'' @ significant 2 (unat b)
       \<and> intToHex (byteToInt bo [0x05]) = ''05''
       \<and> intToBin (byteToInt bo [0x05]) = ''00000101''
       \<and> intToHex (byteToInt bo [0x00]) = ''00''
       \<and> intToBin (byteToInt bo [0x00]) = ''00000000''
       \<and> processEscape bo CHR ''h'' s w =
           (case SerialStream_read s w of
              Inl e \<Rightarrow> Inl e
            | Inr (byte, s', w') \<Rightarrow> Inr (intToHex (byteToInt bo byte), s', w'))
       \<and> processEscape bo CHR ''b'' s w =
           (case SerialStream_read s w of
              Inl e \<Rightarrow> Inl e
            | Inr (byte, s', w') \<Rightarrow> Inr (intToBin (byteToInt bo byte), s', w'))
       \<and> (SerialStream_read s w = Inr ([b], sa, wa) \<longrightarrow>
            processEscape bo CHR ''h'' s w =
              Inr (replicate (2 - length (significant 16 (unat b))) CHR ''0''
                     @ significant 16 (unat b), sa, wa)
            \<and> processEscape bo CHR ''b'' s w =
              Inr (replicate (8 - length (significant 2 (unat b))) CHR ''0''
                     @ significant 2 (unat b), sa, wa))
       \<and> (SerialStream_read s w = Inr ([0x05], sa, wa) \<longrightarrow>
            processEscape bo CHR ''h'' s w = Inr (''05'', sa, wa)
            \<and> processEscape bo CHR ''b'' s w = Inr (''00000101'', sa, wa))
       \<and> (SerialStream_read s w = Inr ([0x00], sa, wa) \<longrightarrow>
            processEscape bo CHR ''h'' s w = Inr (''00'', sa, wa)
            \<and> processEscape bo CHR ''b'' s w = Inr (''00000000'', sa, wa))"
proof -
  note rb = renderings_of_byte [of bo b]
  have l1: "length (intToHex (byteToInt bo [b])) = 2"
    and l2: "length (intToBin (byteToInt bo [b])) = 8"
    and fh: "intToHex (byteToInt bo [b]) =
      replicate (2 - length (significant 16 (unat b))) CHR ''0'' @ significant 16 (unat b)"
    and fb: "intToBin (byteToInt bo [b]) =
      replicate (8 - length (significant 2 (unat b))) CHR ''0'' @ significant 2 (unat b)"
    and e1: "intToHex (byteToInt bo [0x05]) = ''05''"
    and e2: "intToBin (byteToInt bo [0x05]) = ''00000101''"
    and e3: "intToHex (byteToInt bo [0x00]) = ''00''"
    and e4: "intToBin (byteToInt bo [0x00]) = ''00000000''"
    using rb by blast+
  have ph: "processEscape bo CHR ''h'' s w =
      (case SerialStream_read s w of
         Inl e \<Rightarrow> Inl e
       | Inr (byte, s', w') \<Rightarrow> Inr (intToHex (byteToInt bo byte), s', w'))"
    by (simp add: processEscape_codes)
  have pb: "processEscape bo CHR ''b'' s w =
      (case SerialStream_read s w of
         Inl e \<Rightarrow> Inl e
       | Inr (byte, s', w') \<Rightarrow> Inr (intToBin (byteToInt bo byte), s', w'))"
    by (simp add: processEscape_codes)
  have g: "processEscape bo CHR ''h'' s w =
        Inr (replicate (2 - length (significant 16 (unat b))) CHR ''0''
               @ significant 16 (unat b), sa, wa)
      \<and> processEscape bo CHR ''b'' s w =
        Inr (replicate (8 - length (significant 2 (unat b))) CHR ''0''
               @ significant 2 (unat b), sa, wa)"
    if "SerialStream_read s w = Inr ([b], sa, wa)"
    unfolding ph pb that fh [symmetric] fb [symmetric] by simp
  have g5: "processEscape bo CHR ''h'' s w = Inr (''05'', sa, wa)
      \<and> processEscape bo CHR ''b'' s w = Inr (''00000101'', sa, wa)"
    if "SerialStream_read s w = Inr ([0x05], sa, wa)"
    unfolding ph pb that using e1 e2 by simp
  have g0: "processEscape bo CHR ''h'' s w = Inr (''00'', sa, wa)
      \<and> processEscape bo CHR ''b'' s w = Inr (''00000000'', sa, wa)"
    if "SerialStream_read s w = Inr ([0x00], sa, wa)"
    unfolding ph pb that using e3 e4 by simp
  show ?thesis
    using l1 l2 fh fb e1 e2 e3 e4 ph pb g g5 g0 by blast
qed

theorem fixed_width_renderings_witness:
  "SerialStream_read SerialStream_init (SerialWrapper_init dev_five) =
     Inr ([0x05], \<lparr>ptr = 1\<rparr>, \<lparr>ser = dev_five, nread = 1, buf = [[0x05]]\<rparr>)
   \<and> processEscape Little CHR ''h'' SerialStream_init (SerialWrapper_init dev_five) =
       Inr (''05'', \<lparr>ptr = 1\<rparr>, \<lparr>ser = dev_five, nread = 1, buf = [[0x05]]\<rparr>)
   \<and> processEscape Little CHR ''b'' SerialStream_init (SerialWrapper_init dev_five) =
       Inr (''00000101'', \<lparr>ptr = 1\<rparr>, \<lparr>ser = dev_five, nread = 1, buf = [[0x05]]\<rparr>)"
proof -
  have h1: "SerialStream_read SerialStream_init (SerialWrapper_init dev_five) =
     Inr ([0x05], \<lparr>ptr = 1\<rparr>, \<lparr>ser = dev_five, nread = 1, buf = [[0x05]]\<rparr>)"
    by (simp add: run_defs dev_five_def)
  show ?thesis
    using h1 fixed_width_renderings [where bo = Little and b = "0x05"
        and s = SerialStream_init and w = "SerialWrapper_init dev_five"
        and sa = "\<lparr>ptr = 1\<rparr>"
        and wa = "\<lparr>ser = dev_five, nread = 1, buf = [[0x05]]\<rparr>"]
    by blast
qed

theorem unknown_escape_badesc_witness:
  "CHR ''z'' \<notin> getChar ` set escapeHandlers
   \<and> processEscape Big CHR ''z'' SerialStream_init (SerialWrapper_init dev_A) =
       Inr (''<BADESC>'', SerialStream_init, SerialWrapper_init dev_A)
   \<and> process_format Big CHR ''%'' ''%z'' SerialStream_init (SerialWrapper_init dev_A) =
       Inr (''<BADESC>'', SerialStream_init, SerialWrapper_init dev_A)"
proof -
  have h: "CHR ''z'' \<notin> getChar ` set escapeHandlers"
    by (simp add: escapeHandlers_def)
  show ?thesis
    using h unknown_escape_badesc [OF h, of Big SerialStream_init "SerialWrapper_init dev_A"
        "CHR ''%''" "[]" "[]"]
    by (simp add: process_format_def)
qed

theorem recursive_guard_witness:
  "SerialStream_read SerialStream_init (SerialWrapper_init dev_e) =
     Inr ([0x65], \<lparr>ptr = 1\<rparr>, \<lparr>ser = dev_e, nread = 1, buf = [[0x65]]\<rparr>)
   \<and> chr (byteToInt Little [0x65]) = CHR ''e''
   \<and> processEscape Little CHR ''e'' SerialStream_init (SerialWrapper_init dev_e) =
       Inr (''<RECESC>'', \<lparr>ptr = 1\<rparr>, \<lparr>ser = dev_e, nread = 1, buf = [[0x65]]\<rparr>)"
proof -
  have h1: "SerialStream_read SerialStream_init (SerialWrapper_init dev_e) =
     Inr ([0x65], \<lparr>ptr = 1\<rparr>, \<lparr>ser = dev_e, nread = 1, buf = [[0x65]]\<rparr>)"
    by (simp add: run_defs dev_e_def)
  have h2: "chr (byteToInt Little [0x65]) = CHR ''e''"
    by (simp add: chr_values byteToInt_single)
  show ?thesis
    using h1 h2 recursive_guard [OF h1 h2] by simp
qed

theorem word_decimal_big_endian_witness:
  "SerialStream_read SerialStream_init (SerialWrapper_init dev_count) =
     Inr ([0x01], \<lparr>ptr = 1\<rparr>, \<lparr>ser = dev_count, nread = 1, buf = [[0x01]]\<rparr>)
   \<and> SerialStream_read \<lparr>ptr = 1\<rparr> \<lparr>ser = dev_count, nread = 1, buf = [[0x01]]\<rparr> =
     Inr ([0x02], \<lparr>ptr = 2\<rparr>, \<lparr>ser = dev_count, nread = 2, buf = [[0x01], [0x02]]\<rparr>)
   \<and> processEscape Big CHR ''d'' SerialStream_init (SerialWrapper_init dev_count) =
       Inr (''258'', \<lparr>ptr = 2\<rparr>, \<lparr>ser = dev_count, nread = 2, buf = [[0x01], [0x02]]\<rparr>)
   \<and> processEscape Little CHR ''d'' SerialStream_init (SerialWrapper_init dev_count) =
       Inr (''258'', \<lparr>ptr = 2\<rparr>, \<lparr>ser = dev_count, nread = 2, buf = [[0x01], [0x02]]\<rparr>)"
proof -
  have h1: "SerialStream_read SerialStream_init (SerialWrapper_init dev_count) =
     Inr ([0x01], \<lparr>ptr = 1\<rparr>, \<lparr>ser = dev_count, nread = 1, buf = [[0x01]]\<rparr>)"
    by (simp add: run_defs dev_count_def)
  have h2: "SerialStream_read \<lparr>ptr = 1\<rparr> \<lparr>ser = dev_count, nread = 1, buf = [[0x01]]\<rparr> =
     Inr ([0x02], \<lparr>ptr = 2\<rparr>, \<lparr>ser = dev_count, nread = 2, buf = [[0x01], [0x02]]\<rparr>)"
    by (simp add: run_defs dev_count_def)
  show ?thesis
    using h1 h2 word_decimal_big_endian [OF h1 h2, of Big]
      word_decimal_big_endian [OF h1 h2, of Little]
    by blast
qed

text \<open>
  C3 as stated fails when the escape character is itself a code: with escape character
  \<open>a\<close>, the template \<open>a\<close> reads one byte and prints it.
\<close>

theorem trailing_escape_counterexample:
  "process_format Big CHR ''a'' ''a'' SerialStream_init (SerialWrapper_init dev_A) =
     Inr (''A'', \<lparr>ptr = 1\<rparr>, \<lparr>ser = dev_A, nread = 1, buf = [[0x41]]\<rparr>)
   \<and> process_format Big CHR ''a'' ''a'' SerialStream_init (SerialWrapper_init dev_A) \<noteq>
     Inr (''<BADESC>'', SerialStream_init, SerialWrapper_init dev_A)"
  by (simp add: process_format_def processEscape_codes run_defs dev_A_def chr_values
      byteToInt_single)



lemma split_nonempty: "split sep f \<noteq> []"
  by (induction f) (auto split: list.splits)

lemma split_snoc_sep: "split sep (f @ [sep]) = split sep f @ [[]]"
proof (induction f)
  case Nil
  show ?case by simp
next
  case (Cons c f)
  show ?case
  proof (cases "c = sep")
    case True
    then show ?thesis using Cons.IH by simp
  next
    case False
    obtain t ts where ts: "split sep f = t # ts"
      using split_nonempty [of sep f] by (cases "split sep f") auto
    show ?thesis using False Cons.IH ts by simp
  qed
qed

lemma process_toks_append:
  "process_toks bo esc (ts @ us) s w =
     (case process_toks bo esc ts s w of
        Inl e \<Rightarrow> Inl e
      | Inr (o1, s1, w1) \<Rightarrow>
          (case process_toks bo esc us s1 w1 of
             Inl e \<Rightarrow> Inl e
           | Inr (o2, s2, w2) \<Rightarrow> Inr (o1 @ o2, s2, w2)))"
proof (induction ts arbitrary: s w)
  case Nil
  show ?case by (simp split: sum.splits)
next
  case (Cons t ts)
  show ?case
    by (simp add: Cons.IH split: sum.splits list.splits prod.splits)
qed

lemma process_format_snoc:
  "process_format bo esc (f @ [esc]) s w =
     (case process_format bo esc f s w of
        Inl e \<Rightarrow> Inl e
      | Inr (out, s', w') \<Rightarrow>
          (case processEscape bo esc s' w' of
             Inl e \<Rightarrow> Inl e
           | Inr (o2, s'', w'') \<Rightarrow> Inr (out @ o2, s'', w'')))"
proof -
  obtain t ts where ts: "split esc f = t # ts"
    using split_nonempty [of esc f] by (cases "split esc f") auto
  show ?thesis
    by (simp add: process_format_def split_snoc_sep ts process_toks_append
        split: sum.splits prod.splits)
qed

text \<open>
  C3, as amended. A template that ends in the escape character dispatches on the escape
  character itself. When that character is not the code of a handler, the occurrence
  adds the literal \<open><BADESC>\<close> and leaves stream and wrapper untouched; when it is the
  code of a handler \<open>h\<close>, the occurrence runs \<open>h\<close>.
\<close>

theorem trailing_escape:
  assumes "esc \<notin> getChar ` set escapeHandlers"
  shows "process_format bo esc (f @ [esc]) s w =
           (case process_format bo esc f s w of
              Inl e \<Rightarrow> Inl e
            | Inr (out, s', w') \<Rightarrow> Inr (out @ ''<BADESC>'', s', w'))
       \<and> process_format bo (getChar h) (f @ [getChar h]) s w =
           (case process_format bo (getChar h) f s w of
              Inl e \<Rightarrow> Inl e
            | Inr (out, s', w') \<Rightarrow>
                (case process h bo s' w' of
                   Inl e \<Rightarrow> Inl e
                 | Inr (o2, s'', w'') \<Rightarrow> Inr (out @ o2, s'', w'')))"
  by (simp add: process_format_snoc processEscape_unknown [OF assms] processEscape_known
      split: sum.splits)

theorem trailing_escape_witness:
  "CHR ''%'' \<notin> getChar ` set escapeHandlers
   \<and> process_format Big CHR ''%'' ''%x%'' SerialStream_init (SerialWrapper_init dev_A) =
       Inr (''<BADESC>'', \<lparr>ptr = 1\<rparr>, \<lparr>ser = dev_A, nread = 1, buf = [[0x41]]\<rparr>)"
proof -
  have h: "CHR ''%'' \<notin> getChar ` set escapeHandlers"
    by (simp add: escapeHandlers_def)
  have r: "process_format Big CHR ''%'' ''%x'' SerialStream_init (SerialWrapper_init dev_A) =
       Inr ([], \<lparr>ptr = 1\<rparr>, \<lparr>ser = dev_A, nread = 1, buf = [[0x41]]\<rparr>)"
    by (simp add: process_format_def processEscape_codes run_defs dev_A_def)
  show ?thesis
    using h r trailing_escape [OF h, of Big "''%x''" SerialStream_init
        "SerialWrapper_init dev_A" BinByte]
    by simp
qed




section \<open>How decoding moves a cursor and grows the buffer\<close>

lemma extends_refl: "extends w w"
  by (simp add: extends_def)

lemma extends_trans:
  assumes "extends w w1" "extends w1 w2"
  shows "extends w w2"
proof -
  have le: "nread w \<le> nread w1" "nread w1 \<le> nread w2" and sr: "ser w1 = ser w" "ser w2 = ser w"
    using assms by (simp_all add: extends_def)
  have "[nread w ..< nread w2] = [nread w ..< nread w1] @ [nread w1 ..< nread w2]"
    using le by (metis le_Suc_ex upt_add_eq_append)
  then show ?thesis
    using assms by (simp add: extends_def)
qed

lemma extends_length:
  "extends w w' \<Longrightarrow> length (buf w') = length (buf w) + (nread w' - nread w)"
  by (simp add: extends_def)

lemma push_extends:
  assumes "push w = Inr w'"
  shows "extends w w'" and "length (buf w') = Suc (length (buf w))"
  using assms
  by (auto simp: push_def ser_read_def extends_def bytes_of_def split: read_event.splits)

lemma peek_facts:
  "peek index w = Inr (b, w') \<Longrightarrow>
     extends w w'
     \<and> (index < int (length (buf w)) \<longrightarrow> w' = w)
     \<and> (int (length (buf w)) \<le> index \<longrightarrow> int (length (buf w')) = index + 1)
     \<and> (0 \<le> index \<longrightarrow> nat index < length (buf w') \<and> b = buf w' ! nat index)"
proof (induction index w arbitrary: b w' rule: peek.induct)
  case (1 index w)
  show ?case
  proof (cases "int (length (buf w)) \<le> index")
    case True
    then obtain w1 where p: "push w = Inr w1" and r: "peek index w1 = Inr (b, w')"
      using "1.prems" by (subst (asm) peek.simps) (auto split: sum.splits)
    note ih = "1.IH" [OF True p r]
    have e1: "extends w w1" and l1: "length (buf w1) = Suc (length (buf w))"
      using push_extends [OF p] by simp_all
    have "extends w w'" using e1 ih extends_trans by blast
    moreover have "int (length (buf w')) = index + 1"
    proof (cases "int (length (buf w1)) \<le> index")
      case True
      then show ?thesis using ih by simp
    next
      case False
      then have "w' = w1" using ih by simp
      then show ?thesis using False True l1 by simp
    qed
    moreover have "0 \<le> index \<longrightarrow> nat index < length (buf w') \<and> b = buf w' ! nat index"
      using ih by simp
    ultimately show ?thesis using True by simp
  next
    case False
    then have "py_index (buf w) index = Inr b \<and> w' = w"
      using "1.prems" by (subst (asm) peek.simps) (auto split: sum.splits)
    then show ?thesis
      using False by (auto simp: extends_refl py_index_def split: if_splits)
  qed
qed

lemma advances_refl: "advances s w s w"
  by (simp add: advances_def extends_refl)

lemma advances_trans:
  assumes "advances s w s1 w1" "advances s1 w1 s2 w2"
  shows "advances s w s2 w2"
proof -
  have e: "extends w w2"
    using assms extends_trans unfolding advances_def by blast
  have m: "ptr s \<le> ptr s1" "ptr s1 \<le> ptr s2"
    using assms by (simp_all add: advances_def)
  have "int (length (buf w2)) = max (int (length (buf w))) (ptr s2)"
    if "ptr s \<le> int (length (buf w))"
  proof -
    have l1: "int (length (buf w1)) = max (int (length (buf w))) (ptr s1)"
      using assms(1) that by (simp add: advances_def)
    then have "ptr s1 \<le> int (length (buf w1))" by simp
    then have "int (length (buf w2)) = max (int (length (buf w1))) (ptr s2)"
      using assms(2) by (simp add: advances_def)
    then show ?thesis using l1 m by simp
  qed
  then show ?thesis using e m by (simp add: advances_def)
qed

lemma read_advances:
  assumes "SerialStream_read s w = Inr (b, s', w')"
  shows "advances s w s' w'" and "ptr s' = ptr s + 1"
proof -
  obtain pk: "peek (ptr s) w = Inr (b, w')" and s': "s' = s\<lparr>ptr := ptr s + 1\<rparr>"
    using assms by (auto simp: SerialStream_read_def split: sum.splits)
  show "ptr s' = ptr s + 1" using s' by simp
  show "advances s w s' w'"
    using peek_facts [OF pk] s' by (auto simp: advances_def)
qed

lemma process_advances:
  "process h bo s w = Inr (out, s', w') \<Longrightarrow> advances s w s' w'"
  and processEscape_advances:
  "processEscape bo c s w = Inr (out, s', w') \<Longrightarrow> advances s w s' w'"
proof (induction h bo s w and bo c s w arbitrary: out s' w' and out s' w'
    rule: process_processEscape.induct)
  case (4 bo s w)
  then show ?case
    by (auto split: sum.splits dest!: read_advances(1) intro: advances_trans)
next
  case (7 bo s w)
  then show ?case
    by (auto split: sum.splits if_splits dest!: read_advances(1))
       (blast intro: advances_trans)
next
  case (10 bo escape s w)
  then show ?case
    by (auto simp: processEscape.simps advances_refl split: option.splits)
qed (auto split: sum.splits dest: read_advances(1) simp: advances_refl)

lemma process_toks_advances:
  "process_toks bo esc toks s w = Inr (out, s', w') \<Longrightarrow> advances s w s' w'"
proof (induction toks arbitrary: s w out s' w')
  case Nil
  then show ?case by (simp add: advances_refl)
next
  case (Cons t toks)
  then show ?case
    by (auto split: sum.splits list.splits dest!: processEscape_advances)
       (blast intro: advances_trans)+
qed

lemma process_format_advances:
  "process_format bo esc f s w = Inr (out, s', w') \<Longrightarrow> advances s w s' w'"
  by (auto simp: process_format_def split: list.splits sum.splits
      dest: process_toks_advances)

section \<open>The decoding phase of a round\<close>

lemma Max_insert_max:
  fixes a b :: int
  assumes "finite S"
  shows "Max (insert (max a b) S) = Max (insert a (insert b S))"
proof (cases "S = {}")
  case True
  then show ?thesis by simp
next
  case False
  then show ?thesis using assms by (simp add: max.assoc)
qed

lemma process_formats_facts:
  "process_formats bo esc fss w = Inr (out, ss', w') \<Longrightarrow>
     extends w w' \<and> length ss' = length fss
     \<and> list_all2 (\<lambda>fs s'. ptr (snd fs) \<le> ptr s') fss ss'
     \<and> (list_all (\<lambda>fs. ptr (snd fs) \<le> int (length (buf w))) fss \<longrightarrow>
          int (length (buf w')) = Max (insert (int (length (buf w))) (ptr ` set ss')))"
proof (induction fss arbitrary: w out ss')
  case Nil
  then show ?case by (simp add: extends_refl)
next
  case (Cons fs fss)
  obtain f s where fs: "fs = (f, s)" by (cases fs)
  obtain o1 s1 w1 o2 ss2 where
    pf: "process_format bo esc f s w = Inr (o1, s1, w1)" and
    rec: "process_formats bo esc fss w1 = Inr (o2, ss2, w')" and
    ss': "ss' = s1 # ss2"
    using Cons.prems fs by (auto split: sum.splits)
  have adv: "advances s w s1 w1" using process_format_advances [OF pf] .
  note ih = Cons.IH [OF rec]
  have e: "extends w w'"
    using adv ih extends_trans unfolding advances_def by blast
  have l2: "list_all2 (\<lambda>fs s'. ptr (snd fs) \<le> ptr s') (fs # fss) ss'"
    using adv ih fs ss' by (simp add: advances_def)
  have mx: "int (length (buf w')) = Max (insert (int (length (buf w))) (ptr ` set ss'))"
    if all: "list_all (\<lambda>fs. ptr (snd fs) \<le> int (length (buf w))) (fs # fss)"
  proof -
    have l1: "int (length (buf w1)) = max (int (length (buf w))) (ptr s1)"
      using adv all fs by (simp add: advances_def)
    then have "list_all (\<lambda>fs. ptr (snd fs) \<le> int (length (buf w1))) fss"
      using all by (auto simp: list_all_iff)
    then have "int (length (buf w')) = Max (insert (int (length (buf w1))) (ptr ` set ss2))"
      using ih by simp
    then show ?thesis
      using l1 ss' by (simp add: Max_insert_max)
  qed
  show ?case using e l2 mx ih ss' by simp
qed

lemma decode_fields:
  assumes "decode sess = Inr (out, mid)"
  shows "escape mid = escape sess" "byteorder mid = byteorder sess"
    "formats mid = formats sess" "buffer mid = buffer sess"
  using assms by (auto simp: decode_def split: sum.splits)

lemma decode_facts:
  assumes "decode sess = Inr (out, mid)"
  shows "extends (sw sess) (sw mid)"
    and "list_all2 (\<lambda>s s'. ptr s \<le> ptr s') (streams sess) (streams mid)"
    and "cursors_within sess \<Longrightarrow> cursors_within mid"
    and "cursors_within sess \<Longrightarrow>
           int (length (buf (sw mid))) \<in>
             insert (int (length (buf (sw sess)))) (ptr ` set (streams mid))"
proof -
  define fss where "fss = zip (formats sess) (streams sess)"
  obtain ss' w' where
    pf: "process_formats (byteorder sess) (escape sess) fss (sw sess) = Inr (out, ss', w')"
    and mid: "mid = sess\<lparr>streams := ss' @ drop (length ss') (streams sess), sw := w'\<rparr>"
    using assms by (auto simp: decode_def fss_def split: sum.splits)
  note pf' = process_formats_facts [OF pf]
  have len: "length ss' = length fss" using pf' by simp
  have snd_fss: "map snd fss = take (length ss') (streams sess)"
    unfolding len fss_def by (simp add: take_zip [symmetric] map_snd_zip_take min.commute)
  show e: "extends (sw sess) (sw mid)" using pf' mid by simp
  have "list_all2 (\<lambda>s s'. ptr s \<le> ptr s') (map snd fss) ss'"
    using pf' by (simp add: list_all2_map1)
  then have a: "list_all2 (\<lambda>s s'. ptr s \<le> ptr s') (take (length ss') (streams sess)) ss'"
    by (simp add: snd_fss)
  have b: "list_all2 (\<lambda>s s'. ptr s \<le> ptr s')
      (drop (length ss') (streams sess)) (drop (length ss') (streams sess))"
    by (simp add: list_all2_same)
  have "list_all2 (\<lambda>s s'. ptr s \<le> ptr s')
      (take (length ss') (streams sess) @ drop (length ss') (streams sess))
      (ss' @ drop (length ss') (streams sess))"
    using a b by (rule list_all2_appendI)
  then show "list_all2 (\<lambda>s s'. ptr s \<le> ptr s') (streams sess) (streams mid)"
    using mid by simp
  have grow: "length (buf (sw sess)) \<le> length (buf (sw mid))"
    using extends_length [OF e] by simp
  {
    assume cw: "cursors_within sess"
    have "set (map snd fss) \<subseteq> set (streams sess)"
      unfolding snd_fss by (rule set_take_subset)
    then have "list_all (\<lambda>fs. ptr (snd fs) \<le> int (length (buf (sw sess)))) fss"
      using cw by (auto simp: cursors_within_def list_all_iff)
    then have mx: "int (length (buf w')) =
        Max (insert (int (length (buf (sw sess)))) (ptr ` set ss'))"
      using pf' by simp
    have "Max (insert (int (length (buf (sw sess)))) (ptr ` set ss'))
        \<in> insert (int (length (buf (sw sess)))) (ptr ` set ss')"
      by (rule Max_in) simp_all
    then show "int (length (buf (sw mid))) \<in>
        insert (int (length (buf (sw sess)))) (ptr ` set (streams mid))"
      using mx mid by auto
    have "ptr s \<le> int (length (buf w'))" if "s \<in> set ss'" for s
      unfolding mx using that by (intro Max_ge) simp_all
    moreover have "ptr s \<le> int (length (buf w'))"
      if "s \<in> set (drop (length ss') (streams sess))" for s
    proof -
      have "s \<in> set (streams sess)" using that by (rule in_set_dropD)
      then show ?thesis
        using cw grow mid by (auto simp: cursors_within_def list_all_iff)
    qed
    ultimately show "cursors_within mid"
      using mid by (auto simp: cursors_within_def list_all_iff)
  }
qed

lemma decode_nonneg:
  assumes "decode sess = Inr (out, mid)" "cursors_nonneg sess"
  shows "cursors_nonneg mid"
proof -
  have "list_all2 (\<lambda>s s'. ptr s \<le> ptr s') (streams sess) (streams mid)"
    using decode_facts(2) [OF assms(1)] .
  then show ?thesis
    using assms(2) unfolding cursors_nonneg_def list_all_length list_all2_conv_all_nth
    by fastforce
qed

lemma tight_iff:
  "tight sess \<longleftrightarrow>
     cursors_within sess \<and> (\<exists>s \<in> set (streams sess). ptr s = int (length (buf (sw sess))))"
proof
  assume t: "tight sess"
  then have ne: "ptr ` set (streams sess) \<noteq> {}" by (simp add: tight_def)
  have "Max (ptr ` set (streams sess)) \<in> ptr ` set (streams sess)"
    using ne by (intro Max_in) simp_all
  then obtain s where s: "s \<in> set (streams sess)" "ptr s = Max (ptr ` set (streams sess))"
    by auto
  have "\<forall>s \<in> set (streams sess). ptr s \<le> Max (ptr ` set (streams sess))"
    by simp
  then have "cursors_within sess"
    using t by (simp add: tight_def cursors_within_def list_all_iff)
  moreover have "\<exists>s \<in> set (streams sess). ptr s = int (length (buf (sw sess)))"
    using s t by (auto simp: tight_def)
  ultimately show "cursors_within sess \<and>
      (\<exists>s \<in> set (streams sess). ptr s = int (length (buf (sw sess))))"
    by simp
next
  assume a: "cursors_within sess \<and>
      (\<exists>s \<in> set (streams sess). ptr s = int (length (buf (sw sess))))"
  then have ne: "streams sess \<noteq> []" by auto
  obtain s where s: "s \<in> set (streams sess)" "ptr s = int (length (buf (sw sess)))"
    using a by auto
  have mem: "int (length (buf (sw sess))) \<in> ptr ` set (streams sess)"
    using s by (metis imageI)
  have "Max (ptr ` set (streams sess)) = int (length (buf (sw sess)))"
    using a mem by (intro Max_eqI) (auto simp: cursors_within_def list_all_iff)
  then show "tight sess" using ne by (simp add: tight_def)
qed

lemma decode_tight:
  assumes "decode sess = Inr (out, mid)" "tight sess"
  shows "tight mid"
proof -
  have cw: "cursors_within sess" using assms(2) by (simp add: tight_iff)
  have cw': "cursors_within mid" using decode_facts(3) [OF assms(1) cw] .
  have mem: "int (length (buf (sw mid))) \<in>
      insert (int (length (buf (sw sess)))) (ptr ` set (streams mid))"
    using decode_facts(4) [OF assms(1) cw] .
  have l2: "list_all2 (\<lambda>s s'. ptr s \<le> ptr s') (streams sess) (streams mid)"
    using decode_facts(2) [OF assms(1)] .
  have "\<exists>s' \<in> set (streams mid). ptr s' = int (length (buf (sw mid)))"
  proof (cases "int (length (buf (sw mid))) \<in> ptr ` set (streams mid)")
    case True
    then show ?thesis by auto
  next
    case False
    then have same: "int (length (buf (sw mid))) = int (length (buf (sw sess)))"
      using mem by simp
    obtain s where s: "s \<in> set (streams sess)" "ptr s = int (length (buf (sw sess)))"
      using assms(2) by (auto simp: tight_iff)
    then obtain i where i: "i < length (streams sess)" "streams sess ! i = s"
      by (auto simp: in_set_conv_nth)
    have li: "i < length (streams mid)" and le: "ptr s \<le> ptr (streams mid ! i)"
      using l2 i by (auto simp: list_all2_conv_all_nth)
    have "ptr (streams mid ! i) \<le> int (length (buf (sw mid)))"
      using cw' li by (simp add: cursors_within_def list_all_length)
    then have "ptr (streams mid ! i) = int (length (buf (sw mid)))"
      using le s same by simp
    then show ?thesis using li by (metis nth_mem)
  qed
  then show ?thesis using cw' by (simp add: tight_iff)
qed

section \<open>Reconciliation\<close>

lemma Min_insert_min:
  fixes a b :: int
  assumes "finite S"
  shows "Min (insert (min a b) S) = Min (insert a (insert b S))"
proof (cases "S = {}")
  case True
  then show ?thesis by simp
next
  case False
  then show ?thesis using assms by (simp add: min.assoc)
qed

lemma minInd_loop_Some:
  "minInd_loop (Some m) ss = Some (Min (insert m (ptr ` set ss)))"
proof (induction ss arbitrary: m)
  case Nil
  show ?case by simp
next
  case (Cons s ss)
  have step: "minInd_loop (Some m) (s # ss) = minInd_loop (Some (min m (ptr s))) ss"
    by (auto simp: getIndex_def min_def)
  show ?case
    unfolding step Cons.IH by (simp add: Min_insert_min del: Min_insert)
qed

lemma minInd_loop_None:
  "minInd_loop None ss = (if ss = [] then None else Some (Min (ptr ` set ss)))"
  by (cases ss) (simp_all add: minInd_loop_Some getIndex_def)

lemma maxInd_loop_Some:
  "maxInd_loop (Some m) ss =
     (Some (Max (insert m (ptr ` set ss))), map (\<lambda>s. s\<lparr>ptr := 0\<rparr>) ss)"
proof (induction ss arbitrary: m)
  case Nil
  show ?case by simp
next
  case (Cons s ss)
  have step: "maxInd_loop (Some m) (s # ss) =
      (let (r, ss') = maxInd_loop (Some (max m (ptr s))) ss in (r, s\<lparr>ptr := 0\<rparr> # ss'))"
    by (auto simp: getIndex_def trim_def max_def)
  show ?case
    unfolding step Cons.IH by (simp add: Max_insert_max del: Max_insert)
qed

lemma maxInd_loop_None:
  "maxInd_loop None ss =
     ((if ss = [] then None else Some (Max (ptr ` set ss))), map (\<lambda>s. s\<lparr>ptr := 0\<rparr>) ss)"
  by (cases ss) (simp_all add: maxInd_loop_Some getIndex_def trim_def)

lemma reconcile_empty: "streams mid = [] \<Longrightarrow> reconcile mid = mid"
  by (simp add: reconcile_def minInd_loop_None maxInd_loop_None pop_def py_slice_from_def)

lemma reconcile_sync:
  assumes "\<not> buffer mid" "streams mid \<noteq> []"
  shows "reconcile mid =
     mid\<lparr>streams := map (\<lambda>s. s\<lparr>ptr := 0\<rparr>) (streams mid),
         sw := pop (Some (Max (ptr ` set (streams mid)))) (sw mid)\<rparr>"
  using assms by (simp add: reconcile_def maxInd_loop_None)

lemma reconcile_buffered:
  assumes "buffer mid" "streams mid \<noteq> []"
  shows "reconcile mid =
     mid\<lparr>streams := map (\<lambda>s. s\<lparr>ptr := ptr s - Min (ptr ` set (streams mid))\<rparr>) (streams mid),
         sw := pop (Some (Min (ptr ` set (streams mid)))) (sw mid)\<rparr>"
  using assms by (simp add: reconcile_def minInd_loop_None trim_def)

lemma pop_Some:
  assumes "0 \<le> c"
  shows "buf (pop (Some c) w) = drop (nat c) (buf w)"
    and "nread (pop (Some c) w) = nread w"
    and "ser (pop (Some c) w) = ser w"
  using assms by (simp_all add: pop_def py_slice_from_def)

lemma pop_window:
  assumes "window w" "0 \<le> c"
  shows "window (pop (Some c) w)"
    and "base (pop (Some c) w) = base w + min (nat c) (length (buf w))"
proof -
  have len: "length (buf w) \<le> nread w"
    and bw: "buf w = map (\<lambda>k. bytes_of (ser w k)) [base w ..< nread w]"
    using assms(1) by (simp_all add: window_def)
  show b: "base (pop (Some c) w) = base w + min (nat c) (length (buf w))"
    using len assms(2) by (simp add: base_def pop_Some)
  have "drop (nat c) (buf w) = map (\<lambda>k. bytes_of (ser w k)) [base w + nat c ..< nread w]"
    by (subst bw) (simp add: drop_map)
  also have "[base w + nat c ..< nread w] = [base (pop (Some c) w) ..< nread w]"
    unfolding b using len by (cases "nat c \<le> length (buf w)") (simp_all add: base_def min_def)
  finally show "window (pop (Some c) w)"
    using len assms(2) by (simp add: window_def pop_Some)
qed

lemma extends_window:
  assumes "extends w w'" "window w"
  shows "window w'" and "base w' = base w"
proof -
  have len: "length (buf w) \<le> nread w"
    and bw: "buf w = map (\<lambda>k. bytes_of (ser w k)) [base w ..< nread w]"
    using assms(2) by (simp_all add: window_def)
  have e: "ser w' = ser w" "nread w \<le> nread w'"
    "buf w' = buf w @ map (\<lambda>k. bytes_of (ser w k)) [nread w ..< nread w']"
    using assms(1) by (simp_all add: extends_def)
  show b: "base w' = base w"
    using extends_length [OF assms(1)] len e(2) by (simp add: base_def)
  have le: "base w \<le> nread w" by (simp add: base_def)
  have "[base w ..< nread w'] = [base w ..< nread w] @ [nread w ..< nread w']"
    using le e(2) by (metis le_Suc_ex upt_add_eq_append)
  then have "buf w' = map (\<lambda>k. bytes_of (ser w' k)) [base w' ..< nread w']"
    using e bw b by simp
  moreover have "length (buf w') \<le> nread w'"
    using extends_length [OF assms(1)] len e(2) by simp
  ultimately show "window w'" by (simp add: window_def)
qed

section \<open>Rounds keep the session invariant\<close>

lemma Session_read_iff:
  "Session_read sess = Inr (out, sess') \<longleftrightarrow>
     (\<exists>mid. decode sess = Inr (out, mid) \<and> sess' = reconcile mid)"
  by (auto simp: Session_read_def split: sum.splits)

lemma reconcile_fields:
  "escape (reconcile mid) = escape mid" "byteorder (reconcile mid) = byteorder mid"
  "formats (reconcile mid) = formats mid" "buffer (reconcile mid) = buffer mid"
  "length (streams (reconcile mid)) = length (streams mid)"
  by (cases "streams mid = []"; cases "buffer mid";
      simp add: reconcile_empty reconcile_sync reconcile_buffered)+

lemma Min_ptr_bounds:
  assumes "ss \<noteq> []"
  shows "\<forall>s \<in> set ss. Min (ptr ` set ss) \<le> ptr s"
    and "\<exists>s \<in> set ss. ptr s = Min (ptr ` set ss)"
proof -
  show "\<forall>s \<in> set ss. Min (ptr ` set ss) \<le> ptr s" by simp
  have "Min (ptr ` set ss) \<in> ptr ` set ss"
    using assms by (intro Min_in) simp_all
  then show "\<exists>s \<in> set ss. ptr s = Min (ptr ` set ss)" by auto
qed

lemma Max_ptr_bounds:
  assumes "ss \<noteq> []"
  shows "\<forall>s \<in> set ss. ptr s \<le> Max (ptr ` set ss)"
    and "\<exists>s \<in> set ss. ptr s = Max (ptr ` set ss)"
proof -
  show "\<forall>s \<in> set ss. ptr s \<le> Max (ptr ` set ss)" by simp
  have "Max (ptr ` set ss) \<in> ptr ` set ss"
    using assms by (intro Max_in) simp_all
  then show "\<exists>s \<in> set ss. ptr s = Max (ptr ` set ss)" by auto
qed

lemma reconcile_nonneg: "cursors_nonneg (reconcile mid)"
proof (cases "streams mid = []")
  case True
  then show ?thesis by (simp add: reconcile_empty cursors_nonneg_def)
next
  case False
  show ?thesis
  proof (cases "buffer mid")
    case True
    then show ?thesis
      using Min_ptr_bounds(1) [OF False]
      by (simp add: reconcile_buffered [OF True False] cursors_nonneg_def list_all_iff)
  next
    case False
    then show ?thesis
      using \<open>streams mid \<noteq> []\<close>
      by (simp add: reconcile_sync cursors_nonneg_def list_all_iff)
  qed
qed

lemma reconcile_within:
  assumes "cursors_nonneg mid" "cursors_within mid"
  shows "cursors_within (reconcile mid)"
proof (cases "streams mid = []")
  case True
  then show ?thesis using assms by (simp add: reconcile_empty)
next
  case ne: False
  show ?thesis
  proof (cases "buffer mid")
    case True
    obtain s0 where s0: "s0 \<in> set (streams mid)" "ptr s0 = Min (ptr ` set (streams mid))"
      using Min_ptr_bounds(2) [OF ne] by auto
    have m0: "0 \<le> Min (ptr ` set (streams mid))"
      using s0 assms(1) by (auto simp: cursors_nonneg_def list_all_iff)
    have ml: "Min (ptr ` set (streams mid)) \<le> int (length (buf (sw mid)))"
      using s0 assms(2) by (auto simp: cursors_within_def list_all_iff)
    show ?thesis
      using assms(2) m0 ml
      by (auto simp: reconcile_buffered [OF True ne] cursors_within_def list_all_iff pop_Some)
  next
    case False
    then show ?thesis
      using ne by (simp add: reconcile_sync cursors_within_def list_all_iff)
  qed
qed

lemma reconcile_window:
  assumes "cursors_nonneg mid" "window (sw mid)"
  shows "window (sw (reconcile mid))" and "base (sw mid) \<le> base (sw (reconcile mid))"
proof -
  have "window (sw (reconcile mid)) \<and> base (sw mid) \<le> base (sw (reconcile mid))"
  proof (cases "streams mid = []")
    case True
    then show ?thesis using assms by (simp add: reconcile_empty)
  next
    case ne: False
    show ?thesis
    proof (cases "buffer mid")
      case True
      obtain s0 where s0: "s0 \<in> set (streams mid)" "ptr s0 = Min (ptr ` set (streams mid))"
        using Min_ptr_bounds(2) [OF ne] by auto
      have m0: "0 \<le> Min (ptr ` set (streams mid))"
        using s0 assms(1) by (auto simp: cursors_nonneg_def list_all_iff)
      show ?thesis
        using pop_window [OF assms(2) m0] by (simp add: reconcile_buffered [OF True ne])
    next
      case False
      obtain s0 where s0: "s0 \<in> set (streams mid)" "ptr s0 = Max (ptr ` set (streams mid))"
        using Max_ptr_bounds(2) [OF ne] by auto
      have m0: "0 \<le> Max (ptr ` set (streams mid))"
        using s0 assms(1) by (auto simp: cursors_nonneg_def list_all_iff)
      show ?thesis
        using pop_window [OF assms(2) m0] by (simp add: reconcile_sync [OF False ne])
    qed
  qed
  then show "window (sw (reconcile mid))" and "base (sw mid) \<le> base (sw (reconcile mid))"
    by simp_all
qed

lemma Session_read_inv:
  assumes "Session_read sess = Inr (out, sess')" "session_inv sess"
  shows "session_inv sess'" and "base (sw sess) \<le> base (sw sess')"
proof -
  obtain mid where d: "decode sess = Inr (out, mid)" and r: "sess' = reconcile mid"
    using assms(1) by (auto simp: Session_read_iff)
  have inv: "cursors_nonneg sess" "cursors_within sess" "window (sw sess)"
    using assms(2) by (simp_all add: session_inv_def)
  have n: "cursors_nonneg mid" using decode_nonneg [OF d inv(1)] .
  have c: "cursors_within mid" using decode_facts(3) [OF d inv(2)] .
  have w: "window (sw mid)" and b: "base (sw mid) = base (sw sess)"
    using extends_window [OF decode_facts(1) [OF d] inv(3)] by simp_all
  show "session_inv sess'"
    using reconcile_nonneg reconcile_within [OF n c] reconcile_window(1) [OF n w] r
    by (simp add: session_inv_def)
  show "base (sw sess) \<le> base (sw sess')"
    using reconcile_window(2) [OF n w] b r by simp
qed

lemma rounds_inv:
  "rounds n sess = Inr (ls, sess') \<Longrightarrow> session_inv sess \<Longrightarrow>
     session_inv sess' \<and> base (sw sess) \<le> base (sw sess')"
proof (induction n arbitrary: sess ls)
  case 0
  then show ?case by simp
next
  case (Suc n)
  obtain line s1 ls1 where
    r1: "Session_read sess = Inr (line, s1)" and rn: "rounds n s1 = Inr (ls1, sess')"
    using Suc.prems(1) by (auto split: sum.splits)
  have i1: "session_inv s1" and b1: "base (sw sess) \<le> base (sw s1)"
    using Session_read_inv [OF r1 Suc.prems(2)] by simp_all
  show ?case using Suc.IH [OF rn i1] b1 by simp
qed

section \<open>Tightness and the scenario of two templates\<close>

lemma chr_letters:
  "chr 65 = CHR ''A''" "chr 66 = CHR ''B''" "chr 67 = CHR ''C''"
  "chr 68 = CHR ''D''" "chr 69 = CHR ''E''" "chr 70 = CHR ''F''"
  "chr 71 = CHR ''G''" "chr 72 = CHR ''H''" "chr 73 = CHR ''I''"
  by (simp_all add: chr_def char_of_def)

lemmas round_defs =
  decode_def process_format_def processEscape_codes run_defs byteToInt_single

lemmas reconcile_defs =
  reconcile_def getIndex_def trim_def pop_def py_slice_from_def

lemma scenario_start: "scenario bf = scenario_at 0 [] bf [0, 0]"
  by (simp add: scenario_def scenario_at_def Session_init_def SerialWrapper_init_def
      SerialStream_init_def)

lemma scenario_decode_1:
  "decode (scenario_at 0 [] bf [0, 0]) =
     Inr (''AABC'', scenario_at 3 [[0x41], [0x42], [0x43]] bf [1, 3])"
  by (simp add: scenario_at_def round_defs dev_alpha_def chr_letters)

lemma scenario_reconcile_sync_1:
  "reconcile (scenario_at 3 [[0x41], [0x42], [0x43]] False [1, 3]) =
     scenario_at 3 [] False [0, 0]"
  by (simp add: scenario_at_def reconcile_defs)

lemma scenario_reconcile_buffered_1:
  "reconcile (scenario_at 3 [[0x41], [0x42], [0x43]] True [1, 3]) =
     scenario_at 3 [[0x42], [0x43]] True [0, 2]"
  by (simp add: scenario_at_def reconcile_defs)

lemma scenario_decode_sync_2:
  "decode (scenario_at 3 [] False [0, 0]) =
     Inr (''DDEF'', scenario_at 6 [[0x44], [0x45], [0x46]] False [1, 3])"
  by (simp add: scenario_at_def round_defs dev_alpha_def chr_letters)

lemma scenario_reconcile_sync_2:
  "reconcile (scenario_at 6 [[0x44], [0x45], [0x46]] False [1, 3]) =
     scenario_at 6 [] False [0, 0]"
  by (simp add: scenario_at_def reconcile_defs)

lemma scenario_decode_sync_3:
  "decode (scenario_at 6 [] False [0, 0]) =
     Inr (''GGHI'', scenario_at 9 [[0x47], [0x48], [0x49]] False [1, 3])"
  by (simp add: scenario_at_def round_defs dev_alpha_def chr_letters)

lemma scenario_decode_buffered_2:
  "decode (scenario_at 3 [[0x42], [0x43]] True [0, 2]) =
     Inr (''BDEF'', scenario_at 6 [[0x42], [0x43], [0x44], [0x45], [0x46]] True [1, 5])"
  by (simp add: scenario_at_def round_defs dev_alpha_def chr_letters)

lemma init_inv:
  "session_inv (Session_init (SerialWrapper_init dev) esc bo fmts bf)"
  by (simp add: session_inv_def cursors_nonneg_def cursors_within_def window_def base_def
      Session_init_def SerialWrapper_init_def SerialStream_init_def list_all_iff Let_def)

lemma init_tight:
  "fmts \<noteq> Some [] \<Longrightarrow> tight (Session_init (SerialWrapper_init dev) esc bo fmts bf)"
  by (cases fmts)
     (auto simp: tight_iff cursors_within_def Session_init_def SerialWrapper_init_def
        SerialStream_init_def list_all_iff Let_def neq_Nil_conv)

lemma reconcile_tight:
  assumes "tight mid" "cursors_nonneg mid"
  shows "tight (reconcile mid)"
proof -
  have ne: "streams mid \<noteq> []" using assms(1) by (simp add: tight_def)
  have cw: "cursors_within mid" using assms(1) by (simp add: tight_iff)
  obtain s1 where s1: "s1 \<in> set (streams mid)" "ptr s1 = int (length (buf (sw mid)))"
    using assms(1) by (auto simp: tight_iff)
  have cw': "cursors_within (reconcile mid)"
    using reconcile_within [OF assms(2) cw] .
  have "\<exists>s \<in> set (streams (reconcile mid)).
      ptr s = int (length (buf (sw (reconcile mid))))"
  proof (cases "buffer mid")
    case True
    obtain s0 where s0: "s0 \<in> set (streams mid)" "ptr s0 = Min (ptr ` set (streams mid))"
      using Min_ptr_bounds(2) [OF ne] by auto
    have m0: "0 \<le> Min (ptr ` set (streams mid))"
      using s0 assms(2) by (auto simp: cursors_nonneg_def list_all_iff)
    have ml: "Min (ptr ` set (streams mid)) \<le> int (length (buf (sw mid)))"
      using s0 cw by (auto simp: cursors_within_def list_all_iff)
    have "ptr (s1\<lparr>ptr := ptr s1 - Min (ptr ` set (streams mid))\<rparr>) =
        int (length (buf (sw (reconcile mid))))"
      using s1 m0 ml by (simp add: reconcile_buffered [OF True ne] pop_Some)
    moreover have "s1\<lparr>ptr := ptr s1 - Min (ptr ` set (streams mid))\<rparr>
        \<in> set (streams (reconcile mid))"
    proof -
      have "(\<lambda>s. s\<lparr>ptr := ptr s - Min (ptr ` set (streams mid))\<rparr>) s1
          \<in> (\<lambda>s. s\<lparr>ptr := ptr s - Min (ptr ` set (streams mid))\<rparr>) ` set (streams mid)"
        using s1(1) by (rule imageI)
      then show ?thesis by (simp add: reconcile_buffered [OF True ne])
    qed
    ultimately show ?thesis by blast
  next
    case False
    have mx: "Max (ptr ` set (streams mid)) = int (length (buf (sw mid)))"
      using assms(1) by (simp add: tight_def)
    have "ptr (s1\<lparr>ptr := 0\<rparr>) = int (length (buf (sw (reconcile mid))))"
      by (simp add: reconcile_sync [OF False ne] mx pop_Some)
    moreover have "s1\<lparr>ptr := 0\<rparr> \<in> set (streams (reconcile mid))"
    proof -
      have "(\<lambda>s. s\<lparr>ptr := 0\<rparr>) s1 \<in> (\<lambda>s. s\<lparr>ptr := 0\<rparr>) ` set (streams mid)"
        using s1(1) by (rule imageI)
      then show ?thesis by (simp add: reconcile_sync [OF False ne])
    qed
    ultimately show ?thesis by blast
  qed
  then show ?thesis using cw' by (simp add: tight_iff)
qed

lemma rounds_tight:
  "rounds n sess = Inr (ls, sess') \<Longrightarrow> tight sess \<Longrightarrow> cursors_nonneg sess \<Longrightarrow>
     tight sess' \<and> cursors_nonneg sess'"
proof (induction n arbitrary: sess ls)
  case 0
  then show ?case by simp
next
  case (Suc n)
  obtain line s1 ls1 where
    r1: "Session_read sess = Inr (line, s1)" and rn: "rounds n s1 = Inr (ls1, sess')"
    using Suc.prems(1) by (auto split: sum.splits)
  obtain mid where d: "decode sess = Inr (line, mid)" and r: "s1 = reconcile mid"
    using r1 by (auto simp: Session_read_iff)
  have "tight mid" using decode_tight [OF d Suc.prems(2)] .
  moreover have "cursors_nonneg mid" using decode_nonneg [OF d Suc.prems(3)] .
  ultimately have "tight s1" "cursors_nonneg s1"
    using reconcile_tight reconcile_nonneg r by simp_all
  then show ?case using Suc.IH [OF rn] by simp
qed

section \<open>Validity of the cursors and synchronized reconciliation\<close>

lemma decode_streams_length:
  "decode sess = Inr (out, mid) \<Longrightarrow> length (streams mid) = length (streams sess)"
  using decode_facts(2) by (metis list_all2_lengthD)

text \<open>
  C9. Under either policy, a round that starts with every cursor at a non-negative
  offset ends with every cursor at a non-negative offset; and if every cursor started
  inside the buffer or at its end (the next byte to pull), so it is after reconciliation.
\<close>

theorem cursors_valid_after_round:
  assumes "Session_read sess = Inr (out, sess')"
    and "cursors_nonneg sess"
  shows "cursors_nonneg sess' \<and> (cursors_within sess \<longrightarrow> cursors_within sess')"
proof -
  obtain mid where d: "decode sess = Inr (out, mid)" and r: "sess' = reconcile mid"
    using assms(1) by (auto simp: Session_read_iff)
  have n: "cursors_nonneg mid" using decode_nonneg [OF d assms(2)] .
  have "cursors_within sess'" if "cursors_within sess"
    using reconcile_within [OF n decode_facts(3) [OF d that]] r by simp
  then show ?thesis using reconcile_nonneg r by simp
qed

lemma scenario_read_sync:
  "Session_read (scenario False) = Inr (''AABC'', scenario_at 3 [] False [0, 0])"
  by (simp add: Session_read_def scenario_start scenario_decode_1 scenario_reconcile_sync_1)

lemma scenario_read_buffered:
  "Session_read (scenario True) =
     Inr (''AABC'', scenario_at 3 [[0x42], [0x43]] True [0, 2])"
  by (simp add: Session_read_def scenario_start scenario_decode_1
      scenario_reconcile_buffered_1)

lemma scenario_inv: "session_inv (scenario bf)" "tight (scenario bf)"
  unfolding scenario_def by (simp_all add: init_inv init_tight)

theorem cursors_valid_after_round_witness:
  "Session_read (scenario False) = Inr (''AABC'', scenario_at 3 [] False [0, 0])
   \<and> Session_read (scenario True) =
       Inr (''AABC'', scenario_at 3 [[0x42], [0x43]] True [0, 2])
   \<and> cursors_nonneg (scenario False) \<and> cursors_within (scenario False)
   \<and> cursors_nonneg (scenario True) \<and> cursors_within (scenario True)
   \<and> cursors_nonneg (scenario_at 3 [] False [0, 0])
   \<and> cursors_within (scenario_at 3 [] False [0, 0])
   \<and> cursors_nonneg (scenario_at 3 [[0x42], [0x43]] True [0, 2])
   \<and> cursors_within (scenario_at 3 [[0x42], [0x43]] True [0, 2])"
proof -
  have n: "cursors_nonneg (scenario bf)" and c: "cursors_within (scenario bf)" for bf
    using scenario_inv(1) [of bf] by (simp_all add: session_inv_def)
  show ?thesis
    using cursors_valid_after_round [OF scenario_read_sync n]
      cursors_valid_after_round [OF scenario_read_buffered n]
      scenario_read_sync scenario_read_buffered n c
    by simp
qed

text \<open>
  C1. In synchronized mode, a round on a session with at least one template, started in
  a state between rounds, ends with every cursor at offset 0 and with exactly \<open>M\<close>
  bytes dropped from the front of the buffer, \<open>M\<close> being the largest cursor offset
  reached. The buffer then starts \<open>M\<close> device reads later, and in every later round the
  buffer holds only device reads from that position on: the bytes between a slower
  template's offset and \<open>M\<close> are not read again.
\<close>

theorem synchronized_reconciliation:
  assumes "\<not> buffer sess" and "streams sess \<noteq> []" and "session_inv sess"
    and "decode sess = Inr (out, mid)"
  shows "Session_read sess = Inr (out, reconcile mid)
       \<and> list_all (\<lambda>s. ptr s = 0) (streams (reconcile mid))
       \<and> 0 \<le> Max (ptr ` set (streams mid))
       \<and> nat (Max (ptr ` set (streams mid))) \<le> length (buf (sw mid))
       \<and> buf (sw (reconcile mid)) = drop (nat (Max (ptr ` set (streams mid)))) (buf (sw mid))
       \<and> base (sw (reconcile mid)) = base (sw mid) + nat (Max (ptr ` set (streams mid)))
       \<and> (\<forall>n ls later out' mid'.
            rounds n (reconcile mid) = Inr (ls, later) \<longrightarrow>
            decode later = Inr (out', mid') \<longrightarrow>
              window (sw mid')
              \<and> base (sw mid') = base (sw later)
              \<and> base (sw mid) + nat (Max (ptr ` set (streams mid))) \<le> base (sw mid'))"
proof -
  define M where "M = Max (ptr ` set (streams mid))"
  have inv: "cursors_nonneg sess" "cursors_within sess" "window (sw sess)"
    using assms(3) by (simp_all add: session_inv_def)
  have nb: "\<not> buffer mid" using decode_fields(4) [OF assms(4)] assms(1) by simp
  have ne: "streams mid \<noteq> []"
    using decode_streams_length [OF assms(4)] assms(2) by auto
  have n: "cursors_nonneg mid" using decode_nonneg [OF assms(4) inv(1)] .
  have c: "cursors_within mid" using decode_facts(3) [OF assms(4) inv(2)] .
  have w: "window (sw mid)"
    using extends_window(1) [OF decode_facts(1) [OF assms(4)] inv(3)] .
  obtain s0 where s0: "s0 \<in> set (streams mid)" "ptr s0 = M"
    using Max_ptr_bounds(2) [OF ne] by (auto simp: M_def)
  have M0: "0 \<le> M" using s0 n by (auto simp: cursors_nonneg_def list_all_iff)
  have Ml: "nat M \<le> length (buf (sw mid))"
    using s0 c by (auto simp: cursors_within_def list_all_iff)
  have rec: "reconcile mid =
      mid\<lparr>streams := map (\<lambda>s. s\<lparr>ptr := 0\<rparr>) (streams mid), sw := pop (Some M) (sw mid)\<rparr>"
    unfolding M_def by (rule reconcile_sync [OF nb ne])
  have r1: "Session_read sess = Inr (out, reconcile mid)"
    using assms(4) by (simp add: Session_read_def)
  have r2: "list_all (\<lambda>s. ptr s = 0) (streams (reconcile mid))"
    by (simp add: rec list_all_iff)
  have r3: "buf (sw (reconcile mid)) = drop (nat M) (buf (sw mid))"
    using M0 by (simp add: rec pop_Some)
  have r4: "base (sw (reconcile mid)) = base (sw mid) + nat M"
    using pop_window(2) [OF w M0] Ml by (simp add: rec min_def)
  have i': "session_inv (reconcile mid)"
    using Session_read_inv(1) [OF r1 assms(3)] .
  have r5: "window (sw mid') \<and> base (sw mid') = base (sw later)
      \<and> base (sw mid) + nat M \<le> base (sw mid')"
    if rn: "rounds n (reconcile mid) = Inr (ls, later)"
      and d': "decode later = Inr (out', mid')" for n ls later out' mid'
  proof -
    have il: "session_inv later" and bl: "base (sw (reconcile mid)) \<le> base (sw later)"
      using rounds_inv [OF rn i'] by simp_all
    have wl: "window (sw later)" using il by (simp add: session_inv_def)
    show ?thesis
      using extends_window [OF decode_facts(1) [OF d'] wl] bl r4 by simp
  qed
  show ?thesis
    unfolding M_def [symmetric] using r1 r2 M0 Ml r3 r4 r5 by blast
qed


lemma scenario_rounds_sync_1:
  "rounds 1 (scenario_at 3 [] False [0, 0]) = Inr ([''DDEF''], scenario_at 6 [] False [0, 0])"
proof -
  have "Session_read (scenario_at 3 [] False [0, 0]) =
      Inr (''DDEF'', scenario_at 6 [] False [0, 0])"
    by (simp add: Session_read_def scenario_decode_sync_2 scenario_reconcile_sync_2)
  then have "rounds (Suc 0) (scenario_at 3 [] False [0, 0]) =
      Inr ([''DDEF''], scenario_at 6 [] False [0, 0])"
    by simp
  then show ?thesis by simp
qed

theorem synchronized_reconciliation_witness:
  "\<not> buffer (scenario False) \<and> streams (scenario False) \<noteq> []
   \<and> session_inv (scenario False)
   \<and> decode (scenario False) =
       Inr (''AABC'', scenario_at 3 [[0x41], [0x42], [0x43]] False [1, 3])
   \<and> Session_read (scenario False) = Inr (''AABC'', scenario_at 3 [] False [0, 0])
   \<and> base (sw (scenario_at 3 [[0x41], [0x42], [0x43]] False [1, 3])) = 0
   \<and> base (sw (scenario_at 3 [] False [0, 0])) = 3
   \<and> rounds 1 (scenario_at 3 [] False [0, 0]) =
       Inr ([''DDEF''], scenario_at 6 [] False [0, 0])
   \<and> decode (scenario_at 6 [] False [0, 0]) =
       Inr (''GGHI'', scenario_at 9 [[0x47], [0x48], [0x49]] False [1, 3])
   \<and> window (sw (scenario_at 9 [[0x47], [0x48], [0x49]] False [1, 3]))
   \<and> 3 \<le> base (sw (scenario_at 9 [[0x47], [0x48], [0x49]] False [1, 3]))"
proof -
  have h1: "\<not> buffer (scenario False)" and h2: "streams (scenario False) \<noteq> []"
    by (simp_all add: scenario_start scenario_at_def)
  have h4: "decode (scenario False) =
      Inr (''AABC'', scenario_at 3 [[0x41], [0x42], [0x43]] False [1, 3])"
    by (simp add: scenario_start scenario_decode_1)
  note inst = synchronized_reconciliation [OF h1 h2 scenario_inv(1) h4,
      unfolded scenario_reconcile_sync_1]
  have mx: "Max (ptr ` set (streams (scenario_at 3 [[0x41], [0x42], [0x43]] False [1, 3]))) = 3"
    by (simp add: scenario_at_def)
  have b0: "base (sw (scenario_at 3 [[0x41], [0x42], [0x43]] False [1, 3])) = 0"
    by (simp add: scenario_at_def base_def)
  have later: "window (sw (scenario_at 9 [[0x47], [0x48], [0x49]] False [1, 3]))
      \<and> 3 \<le> base (sw (scenario_at 9 [[0x47], [0x48], [0x49]] False [1, 3]))"
    using inst scenario_rounds_sync_1 scenario_decode_sync_3 mx b0 by fastforce
  have b3: "base (sw (scenario_at 3 [] False [0, 0])) = 3"
    using inst mx b0 by simp
  show ?thesis
    using h1 h2 scenario_inv(1) h4 scenario_read_sync b0 b3 scenario_rounds_sync_1
      scenario_decode_sync_3 later
    by simp
qed

section \<open>Buffered reconciliation\<close>

text \<open>
  C2, as amended. In buffered mode, a round on a session in a tight between-rounds state
  rewinds every cursor by exactly \<open>m\<close> and drops exactly \<open>m\<close> bytes from the front of
  the buffer, \<open>m\<close> being the smallest cursor offset reached; every cursor has passed the
  bytes dropped, and each cursor still addresses the same device read. The buffer that
  remains is as long as the largest offset reached minus the smallest.
\<close>

theorem buffered_reconciliation:
  assumes "buffer sess" and "tight sess" and "session_inv sess"
    and "decode sess = Inr (out, mid)"
  shows "Session_read sess = Inr (out, reconcile mid)
       \<and> 0 \<le> Min (ptr ` set (streams mid))
       \<and> list_all (\<lambda>s. Min (ptr ` set (streams mid)) \<le> ptr s) (streams mid)
       \<and> streams (reconcile mid) =
           map (\<lambda>s. s\<lparr>ptr := ptr s - Min (ptr ` set (streams mid))\<rparr>) (streams mid)
       \<and> nat (Min (ptr ` set (streams mid))) \<le> length (buf (sw mid))
       \<and> buf (sw (reconcile mid)) = drop (nat (Min (ptr ` set (streams mid)))) (buf (sw mid))
       \<and> base (sw (reconcile mid)) = base (sw mid) + nat (Min (ptr ` set (streams mid)))
       \<and> int (length (buf (sw (reconcile mid)))) =
           Max (ptr ` set (streams mid)) - Min (ptr ` set (streams mid))
       \<and> tight (reconcile mid) \<and> session_inv (reconcile mid)"
proof -
  define m where "m = Min (ptr ` set (streams mid))"
  have inv: "cursors_nonneg sess" "cursors_within sess" "window (sw sess)"
    using assms(3) by (simp_all add: session_inv_def)
  have bf: "buffer mid" using decode_fields(4) [OF assms(4)] assms(1) by simp
  have t: "tight mid" using decode_tight [OF assms(4) assms(2)] .
  have ne: "streams mid \<noteq> []" using t by (simp add: tight_def)
  have mx: "int (length (buf (sw mid))) = Max (ptr ` set (streams mid))"
    using t by (simp add: tight_def)
  have n: "cursors_nonneg mid" using decode_nonneg [OF assms(4) inv(1)] .
  have c: "cursors_within mid" using t by (simp add: tight_iff)
  have w: "window (sw mid)"
    using extends_window(1) [OF decode_facts(1) [OF assms(4)] inv(3)] .
  obtain s0 where s0: "s0 \<in> set (streams mid)" "ptr s0 = m"
    using Min_ptr_bounds(2) [OF ne] by (auto simp: m_def)
  have m0: "0 \<le> m" using s0 n by (auto simp: cursors_nonneg_def list_all_iff)
  have ml: "nat m \<le> length (buf (sw mid))"
    using s0 c by (auto simp: cursors_within_def list_all_iff)
  have rec: "reconcile mid =
      mid\<lparr>streams := map (\<lambda>s. s\<lparr>ptr := ptr s - m\<rparr>) (streams mid),
          sw := pop (Some m) (sw mid)\<rparr>"
    unfolding m_def by (rule reconcile_buffered [OF bf ne])
  have r1: "Session_read sess = Inr (out, reconcile mid)"
    using assms(4) by (simp add: Session_read_def)
  have r2: "list_all (\<lambda>s. m \<le> ptr s) (streams mid)"
    using Min_ptr_bounds(1) [OF ne] by (simp add: m_def list_all_iff)
  have r3: "streams (reconcile mid) = map (\<lambda>s. s\<lparr>ptr := ptr s - m\<rparr>) (streams mid)"
    by (simp add: rec)
  have r4: "buf (sw (reconcile mid)) = drop (nat m) (buf (sw mid))"
    using m0 by (simp add: rec pop_Some)
  have r5: "base (sw (reconcile mid)) = base (sw mid) + nat m"
    using pop_window(2) [OF w m0] ml by (simp add: rec min_def)
  have r6: "int (length (buf (sw (reconcile mid)))) = Max (ptr ` set (streams mid)) - m"
    using r4 m0 ml mx by simp
  have r7: "tight (reconcile mid)" using reconcile_tight [OF t n] .
  have r8: "session_inv (reconcile mid)"
    using Session_read_inv(1) [OF r1 assms(3)] .
  show ?thesis
    unfolding m_def [symmetric] using r1 m0 r2 r3 ml r4 r5 r6 r7 r8 by blast
qed

theorem buffered_reconciliation_witness:
  "buffer (scenario True) \<and> tight (scenario True) \<and> session_inv (scenario True)
   \<and> decode (scenario True) =
       Inr (''AABC'', scenario_at 3 [[0x41], [0x42], [0x43]] True [1, 3])
   \<and> Session_read (scenario True) =
       Inr (''AABC'', scenario_at 3 [[0x42], [0x43]] True [0, 2])
   \<and> Min (ptr ` set (streams (scenario_at 3 [[0x41], [0x42], [0x43]] True [1, 3]))) = 1
   \<and> Max (ptr ` set (streams (scenario_at 3 [[0x41], [0x42], [0x43]] True [1, 3]))) = 3
   \<and> int (length (buf (sw (scenario_at 3 [[0x42], [0x43]] True [0, 2])))) = 3 - 1
   \<and> base (sw (scenario_at 3 [[0x42], [0x43]] True [0, 2])) = 1
   \<and> tight (scenario_at 3 [[0x42], [0x43]] True [0, 2])"
proof -
  have h1: "buffer (scenario True)"
    by (simp add: scenario_start scenario_at_def)
  have h4: "decode (scenario True) =
      Inr (''AABC'', scenario_at 3 [[0x41], [0x42], [0x43]] True [1, 3])"
    by (simp add: scenario_start scenario_decode_1)
  note inst = buffered_reconciliation [OF h1 scenario_inv(2) scenario_inv(1) h4,
      unfolded scenario_reconcile_buffered_1]
  have mn: "Min (ptr ` set (streams (scenario_at 3 [[0x41], [0x42], [0x43]] True [1, 3]))) = 1"
    and mx: "Max (ptr ` set (streams (scenario_at 3 [[0x41], [0x42], [0x43]] True [1, 3]))) = 3"
    by (simp_all add: scenario_at_def)
  have b0: "base (sw (scenario_at 3 [[0x41], [0x42], [0x43]] True [1, 3])) = 0"
    by (simp add: scenario_at_def base_def)
  have "int (length (buf (sw (scenario_at 3 [[0x42], [0x43]] True [0, 2])))) =
      Max (ptr ` set (streams (scenario_at 3 [[0x41], [0x42], [0x43]] True [1, 3])))
      - Min (ptr ` set (streams (scenario_at 3 [[0x41], [0x42], [0x43]] True [1, 3])))"
    using inst by blast
  then have a: "int (length (buf (sw (scenario_at 3 [[0x42], [0x43]] True [0, 2])))) = 3 - 1"
    unfolding mn mx .
  have "base (sw (scenario_at 3 [[0x42], [0x43]] True [0, 2])) =
      base (sw (scenario_at 3 [[0x41], [0x42], [0x43]] True [1, 3]))
      + nat (Min (ptr ` set (streams (scenario_at 3 [[0x41], [0x42], [0x43]] True [1, 3]))))"
    using inst by blast
  then have b: "base (sw (scenario_at 3 [[0x42], [0x43]] True [0, 2])) = 1"
    unfolding mn b0 by simp
  have c: "tight (scenario_at 3 [[0x42], [0x43]] True [0, 2])"
    using inst by blast
  show ?thesis
    using h1 scenario_inv [of True] h4 scenario_read_buffered mn mx a b c by simp
qed

lemma chr_nd: "chr 110 = CHR ''n''" "chr 100 = CHR ''d''"
  by (simp_all add: chr_def char_of_def)

lemma str_515: "str_int 515 = ''515''"
  by code_simp

lemma dynamic_start: "dynamic_session = dynamic_at 0 [] [0, 0]"
  by (simp add: dynamic_session_def dynamic_at_def Session_init_def SerialWrapper_init_def
      SerialStream_init_def)

lemma dynamic_decode_1:
  "decode (dynamic_at 0 [] [0, 0]) =
     Inr ([CHR 0x0A], dynamic_at 2 [[0x6E], [0x64]] [1, 2])"
  by (simp add: dynamic_at_def round_defs dev_nd_def chr_nd)

lemma dynamic_reconcile_1:
  "reconcile (dynamic_at 2 [[0x6E], [0x64]] [1, 2]) = dynamic_at 2 [[0x64]] [0, 1]"
  by (simp add: dynamic_at_def reconcile_defs)

lemma dynamic_decode_2:
  "decode (dynamic_at 2 [[0x64]] [0, 1]) =
     Inr (''515'', dynamic_at 4 [[0x64], [0x02], [0x03]] [3, 3])"
  by (simp add: dynamic_at_def round_defs dev_nd_def chr_nd str_515)

lemma dynamic_reconcile_2:
  "reconcile (dynamic_at 4 [[0x64], [0x02], [0x03]] [3, 3]) = dynamic_at 4 [] [0, 0]"
  by (simp add: dynamic_at_def reconcile_defs)

lemma dynamic_rounds_2:
  "rounds 2 dynamic_session = Inr ([[CHR 0x0A], ''515''], dynamic_at 4 [] [0, 0])"
proof -
  have r1: "Session_read (dynamic_at 0 [] [0, 0]) =
      Inr ([CHR 0x0A], dynamic_at 2 [[0x64]] [0, 1])"
    by (simp add: Session_read_def dynamic_decode_1 dynamic_reconcile_1)
  have r2: "Session_read (dynamic_at 2 [[0x64]] [0, 1]) =
      Inr (''515'', dynamic_at 4 [] [0, 0])"
    by (simp add: Session_read_def dynamic_decode_2 dynamic_reconcile_2)
  have "rounds (Suc (Suc 0)) (dynamic_at 0 [] [0, 0]) =
      Inr ([[CHR 0x0A], ''515''], dynamic_at 4 [] [0, 0])"
    by (simp add: r1 r2)
  then show ?thesis by (simp add: dynamic_start numeral_2_eq_2)
qed

lemma dynamic_spread_2: "spread_sum 2 dynamic_session = 2"
proof -
  have c1: "consumed (dynamic_at 0 [] [0, 0]) (dynamic_at 2 [[0x6E], [0x64]] [1, 2]) = [1, 2]"
    and c2: "consumed (dynamic_at 2 [[0x64]] [0, 1])
        (dynamic_at 4 [[0x64], [0x02], [0x03]] [3, 3]) = [3, 2]"
    by (simp_all add: consumed_def dynamic_at_def)
  have "spread_sum (Suc (Suc 0)) (dynamic_at 0 [] [0, 0]) = 2"
    by (simp add: dynamic_decode_1 dynamic_reconcile_1 dynamic_decode_2 c1 c2)
  then show ?thesis by (simp add: dynamic_start numeral_2_eq_2)
qed

text \<open>
  C2 as stated fails where a template's consumption varies from round to round: with the
  templates \<open>%e\<close> and \<open>%x%x\<close> the two rounds have the spreads 2 - 1 and 3 - 2, which
  sum to 2, while the buffer is empty after the second round.
\<close>

theorem buffered_spread_counterexample:
  "rounds 2 dynamic_session = Inr ([[CHR 0x0A], ''515''], dynamic_at 4 [] [0, 0])
   \<and> spread_sum 2 dynamic_session = 2
   \<and> length (buf (sw (dynamic_at 4 [] [0, 0]))) = 0
   \<and> int (length (buf (sw (dynamic_at 4 [] [0, 0])))) \<noteq> spread_sum 2 dynamic_session"
  by (simp add: dynamic_rounds_2 dynamic_spread_2) (simp add: dynamic_at_def)

section \<open>The byte order has no effect\<close>

lemma byteToInt_order:
  "length b \<le> 1 \<Longrightarrow> byteToInt bo b = byteToInt bo' b"
  by (cases b) (simp_all add: byteToInt_single byteToInt_empty)

lemma extends_single_reads:
  assumes "extends w w'" "single_reads w"
  shows "single_reads w'"
proof -
  have "buf w' = buf w @ map (\<lambda>k. bytes_of (ser w k)) [nread w ..< nread w']"
    using assms(1) by (simp add: extends_def)
  moreover have "length (bytes_of ev) \<le> 1" for ev
    by (cases ev) (simp_all add: bytes_of_def)
  ultimately show ?thesis
    using assms(2) by (auto simp: single_reads_def list_all_iff)
qed

lemma peek_elem:
  "peek index w = Inr (b, w') \<Longrightarrow> b \<in> set (buf w')"
proof (induction index w arbitrary: b w' rule: peek.induct)
  case (1 index w)
  show ?case
  proof (cases "int (length (buf w)) \<le> index")
    case True
    then obtain w1 where p: "push w = Inr w1" and r: "peek index w1 = Inr (b, w')"
      using "1.prems" by (subst (asm) peek.simps) (auto split: sum.splits)
    show ?thesis using "1.IH" [OF True p r] .
  next
    case False
    then have "py_index (buf w) index = Inr b \<and> w' = w"
      using "1.prems" by (subst (asm) peek.simps) (auto split: sum.splits)
    then show ?thesis
      by (auto simp: py_index_def split: if_splits)
  qed
qed

lemma read_single:
  assumes "SerialStream_read s w = Inr (b, s', w')" "single_reads w"
  shows "length b \<le> 1" and "single_reads w'"
proof -
  obtain pk: "peek (ptr s) w = Inr (b, w')"
    using assms(1) by (auto simp: SerialStream_read_def split: sum.splits)
  have e: "extends w w'" using peek_facts [OF pk] by simp
  show sr: "single_reads w'" using extends_single_reads [OF e assms(2)] .
  show "length b \<le> 1"
    using peek_elem [OF pk] sr by (auto simp: single_reads_def list_all_iff)
qed

lemma processEscape_single:
  assumes "processEscape bo c s w = Inr (out, s', w')" "single_reads w"
  shows "single_reads w'"
  using processEscape_advances [OF assms(1)] extends_single_reads assms(2)
  unfolding advances_def by blast

lemma read_order:
  assumes "single_reads w"
  shows "(case SerialStream_read s w of
            Inl e \<Rightarrow> Inl e
          | Inr (byte, s', w') \<Rightarrow> Inr (f (byteToInt bo byte), s', w')) =
         (case SerialStream_read s w of
            Inl e \<Rightarrow> Inl e
          | Inr (byte, s', w') \<Rightarrow> Inr (f (byteToInt bo' byte), s', w'))"
proof (cases "SerialStream_read s w")
  case (Inl e)
  then show ?thesis by simp
next
  case (Inr r)
  obtain b s1 w1 where r: "r = (b, s1, w1)" by (cases r)
  have "length b \<le> 1" using read_single(1) [OF Inr [unfolded r] assms] .
  then show ?thesis using Inr r byteToInt_order [of b bo bo'] by simp
qed

lemma process_order:
  "single_reads w \<Longrightarrow> process h bo s w = process h bo' s w"
  and processEscape_order:
  "single_reads w \<Longrightarrow> processEscape bo c s w = processEscape bo' c s w"
proof (induction h bo s w and bo c s w rule: process_processEscape.induct)
  case (1 bo s w)
  then show ?case
    using read_order [where w = w and s = s and f = "intToBin" and bo = bo and bo' = bo']
    by simp
next
  case (2 bo s w)
  then show ?case
    using read_order [where w = w and s = s and f = "intToHex" and bo = bo and bo' = bo']
    by simp
next
  case (3 bo s w)
  then show ?case
    using read_order [where w = w and s = s and f = "str_int" and bo = bo and bo' = bo']
    by simp
next
  case (4 bo s w)
  show ?case
  proof (cases "SerialStream_read s w")
    case (Inl e)
    then show ?thesis by simp
  next
    case (Inr r1)
    obtain b1 s1 w1 where r1: "r1 = (b1, s1, w1)" by (cases r1)
    have l1: "length b1 \<le> 1" and sr1: "single_reads w1"
      using read_single [OF Inr [unfolded r1] "4.prems"] by simp_all
    show ?thesis
    proof (cases "SerialStream_read s1 w1")
      case (Inl e)
      then show ?thesis using Inr r1 by simp
    next
      case (Inr r2)
      obtain b2 s2 w2 where r2: "r2 = (b2, s2, w2)" by (cases r2)
      have l2: "length b2 \<le> 1"
        using read_single(1) [OF Inr [unfolded r2] sr1] .
      show ?thesis
        using \<open>SerialStream_read s w = Inr r1\<close> r1 Inr r2
          byteToInt_order [OF l1, of bo bo'] byteToInt_order [OF l2, of bo bo']
        by simp
    qed
  qed
next
  case (5 bo s w)
  then show ?case
    using read_order [where w = w and s = s and f = "\<lambda>i. [chr i]" and bo = bo and bo' = bo']
    by simp
next
  case (7 bo s w)
  show ?case
  proof (cases "SerialStream_read s w")
    case (Inl e)
    then show ?thesis by simp
  next
    case (Inr r1)
    obtain b1 s1 w1 where r1: "r1 = (b1, s1, w1)" by (cases r1)
    have l1: "length b1 \<le> 1" and sr1: "single_reads w1"
      using read_single [OF Inr [unfolded r1] "7.prems"] by simp_all
    have eq: "byteToInt bo' b1 = byteToInt bo b1"
      using byteToInt_order [OF l1] by blast
    show ?thesis
    proof (cases "chr (byteToInt bo b1) = getChar RecursiveByte")
      case True
      then show ?thesis using Inr r1 eq by simp
    next
      case False
      have "processEscape bo (chr (byteToInt bo b1)) s1 w1 =
          processEscape bo' (chr (byteToInt bo b1)) s1 w1"
        using "7.IH" [OF Inr [unfolded r1] refl refl False sr1] .
      then show ?thesis using Inr r1 eq False by simp
    qed
  qed
next
  case (10 bo escape s w)
  then show ?case
    by (auto simp: processEscape.simps split: option.splits)
qed simp_all

lemma process_toks_order:
  "single_reads w \<Longrightarrow> process_toks bo esc toks s w = process_toks bo' esc toks s w"
proof (induction toks arbitrary: s w)
  case Nil
  show ?case by simp
next
  case (Cons t toks)
  define A where "A = (\<lambda>bo. case t of
        c # cs \<Rightarrow>
          (case processEscape bo c s w of
             Inl e \<Rightarrow> Inl e
           | Inr (out, s', w') \<Rightarrow> Inr (out @ cs, s', w'))
      | [] \<Rightarrow> processEscape bo esc s w)"
  have unfold: "process_toks b esc (t # toks) s w =
      (case A b of
         Inl e \<Rightarrow> Inl e
       | Inr (out, s', w') \<Rightarrow>
           (case process_toks b esc toks s' w' of
              Inl e \<Rightarrow> Inl e
            | Inr (rest, s'', w'') \<Rightarrow> Inr (out @ rest, s'', w'')))" for b
    by (simp add: A_def)
  have same: "A bo = A bo'"
    using processEscape_order [OF Cons.prems, of bo _ s bo']
    by (simp add: A_def split: list.splits)
  show ?case
  proof (cases "A bo'")
    case (Inl e)
    show ?thesis unfolding unfold same Inl by simp
  next
    case (Inr r)
    obtain out s1 w1 where r: "r = (out, s1, w1)" by (cases r)
    have "single_reads w1"
      using Inr r processEscape_single [OF _ Cons.prems]
      by (auto simp: A_def split: list.splits sum.splits)
    then have ih: "process_toks bo esc toks s1 w1 = process_toks bo' esc toks s1 w1"
      by (rule Cons.IH)
    show ?thesis unfolding unfold same Inr r by (simp add: ih)
  qed
qed

lemma process_format_order:
  "single_reads w \<Longrightarrow> process_format bo esc f s w = process_format bo' esc f s w"
  by (simp add: process_format_def process_toks_order [of w bo esc _ s bo']
      split: list.splits)

lemma process_format_single:
  assumes "process_format bo esc f s w = Inr (out, s', w')" "single_reads w"
  shows "single_reads w'"
  using process_format_advances [OF assms(1)] extends_single_reads assms(2)
  unfolding advances_def by blast

lemma process_formats_order:
  "single_reads w \<Longrightarrow> process_formats bo esc fss w = process_formats bo' esc fss w"
proof (induction fss arbitrary: w)
  case Nil
  show ?case by simp
next
  case (Cons fs fss)
  obtain f s where fs: "fs = (f, s)" by (cases fs)
  have head: "process_format bo esc f s w = process_format bo' esc f s w"
    using process_format_order [OF Cons.prems] .
  show ?case
  proof (cases "process_format bo esc f s w")
    case (Inl e)
    then show ?thesis using head fs by simp
  next
    case (Inr r)
    obtain out s1 w1 where r: "r = (out, s1, w1)" by (cases r)
    have "process_formats bo esc fss w1 = process_formats bo' esc fss w1"
      using Cons.IH [OF process_format_single [OF Inr [unfolded r] Cons.prems]] .
    then show ?thesis using Inr r head fs by simp
  qed
qed

lemma decode_order:
  assumes "single_reads (sw sess)"
  shows "decode (sess\<lparr>byteorder := bo'\<rparr>) =
     (case decode sess of
        Inl e \<Rightarrow> Inl e
      | Inr (out, mid) \<Rightarrow> Inr (out, mid\<lparr>byteorder := bo'\<rparr>))"
  using process_formats_order [OF assms, of "byteorder sess" "escape sess"
      "zip (formats sess) (streams sess)" bo']
  by (simp add: decode_def split: sum.splits)

lemma reconcile_order:
  "reconcile (mid\<lparr>byteorder := bo'\<rparr>) = (reconcile mid)\<lparr>byteorder := bo'\<rparr>"
  by (simp add: reconcile_def Let_def split: prod.splits option.splits)

lemma Session_read_order:
  assumes "single_reads (sw sess)"
  shows "Session_read (sess\<lparr>byteorder := bo'\<rparr>) =
     (case Session_read sess of
        Inl e \<Rightarrow> Inl e
      | Inr (out, sess') \<Rightarrow> Inr (out, sess'\<lparr>byteorder := bo'\<rparr>))"
  by (simp add: Session_read_def decode_order [OF assms] reconcile_order split: sum.splits)

lemma Session_read_single:
  assumes "Session_read sess = Inr (out, sess')" "single_reads (sw sess)"
  shows "single_reads (sw sess')"
proof -
  obtain mid where d: "decode sess = Inr (out, mid)" and r: "sess' = reconcile mid"
    using assms(1) by (auto simp: Session_read_iff)
  have m: "single_reads (sw mid)"
    using extends_single_reads [OF decode_facts(1) [OF d] assms(2)] .
  have "set (py_slice_from xs c) \<subseteq> set xs" for xs :: "bytes list" and c
    by (auto simp: py_slice_from_def split: option.splits dest: in_set_dropD)
  then have "set (buf (sw (reconcile mid))) \<subseteq> set (buf (sw mid))"
    by (simp add: reconcile_def pop_def Let_def split: prod.splits)
  then show ?thesis
    using m r by (auto simp: single_reads_def list_all_iff)
qed

lemma rounds_order:
  "single_reads (sw sess) \<Longrightarrow>
     rounds n (sess\<lparr>byteorder := bo'\<rparr>) =
       (case rounds n sess of
          Inl e \<Rightarrow> Inl e
        | Inr (ls, sess') \<Rightarrow> Inr (ls, sess'\<lparr>byteorder := bo'\<rparr>))"
proof (induction n arbitrary: sess)
  case 0
  show ?case by simp
next
  case (Suc n)
  show ?case
  proof (cases "Session_read sess")
    case (Inl e)
    then show ?thesis by (simp add: Session_read_order [OF Suc.prems])
  next
    case (Inr r)
    obtain line s1 where r: "r = (line, s1)" by (cases r)
    have "single_reads (sw s1)"
      using Session_read_single [OF Inr [unfolded r] Suc.prems] .
    then show ?thesis
      using Inr r Suc.IH [of s1]
      by (simp add: Session_read_order [OF Suc.prems] split: sum.splits)
  qed
qed

text \<open>
  C10. For every device, escape character, set of templates and buffering flag, the
  session configured with byte order \<open>Big\<close> and the one configured with \<open>Little\<close> write
  the same lines in every round, and fail in the same round if the device fails.
\<close>

theorem byteorder_irrelevant:
  "map_sum id fst (rounds n (Session_init (SerialWrapper_init dev) esc Big fmts bf)) =
   map_sum id fst (rounds n (Session_init (SerialWrapper_init dev) esc Little fmts bf))"
proof -
  have sr: "single_reads (sw (Session_init (SerialWrapper_init dev) esc Big fmts bf))"
    by (simp add: Session_init_def SerialWrapper_init_def single_reads_def Let_def)
  have "Session_init (SerialWrapper_init dev) esc Little fmts bf =
      (Session_init (SerialWrapper_init dev) esc Big fmts bf)\<lparr>byteorder := Little\<rparr>"
    by (simp add: Session_init_def Let_def)
  then show ?thesis
    by (simp add: rounds_order [OF sr] split: sum.splits)
qed

lemma scenario_rounds_2:
  "rounds 2 (scenario False) = Inr ([''AABC'', ''DDEF''], scenario_at 6 [] False [0, 0])"
proof -
  have "rounds (Suc (Suc 0)) (scenario False) =
      Inr ([''AABC'', ''DDEF''], scenario_at 6 [] False [0, 0])"
    using scenario_read_sync scenario_rounds_sync_1 by simp
  then show ?thesis by (simp add: numeral_2_eq_2)
qed

theorem byteorder_irrelevant_witness:
  "map_sum id fst
     (rounds 2 (Session_init (SerialWrapper_init dev_alpha) CHR ''%'' Little
        (Some [''%a'', ''%a%a%a'']) False)) = Inr [''AABC'', ''DDEF'']"
  using byteorder_irrelevant [of 2 dev_alpha "CHR ''%''" "Some [''%a'', ''%a%a%a'']" False]
    scenario_rounds_2
  by (simp add: scenario_def)

section \<open>A round returns unless the device fails\<close>

lemma extends_never_fails:
  "extends w w' \<Longrightarrow> never_fails w \<Longrightarrow> never_fails w'"
  by (auto simp: extends_def never_fails_def)

lemma push_returns:
  "never_fails w \<Longrightarrow> \<exists>w'. push w = Inr w'"
  by (cases "ser w (nread w)") (auto simp: push_def ser_read_def never_fails_def)

lemma peek_returns:
  "0 \<le> index \<Longrightarrow> never_fails w \<Longrightarrow> \<exists>b w'. peek index w = Inr (b, w')"
proof (induction index w rule: peek.induct)
  case (1 index w)
  show ?case
  proof (cases "int (length (buf w)) \<le> index")
    case True
    obtain w1 where p: "push w = Inr w1"
      using push_returns [OF "1.prems"(2)] by auto
    have "never_fails w1"
      using extends_never_fails [OF push_extends(1) [OF p] "1.prems"(2)] .
    then obtain b w' where "peek index w1 = Inr (b, w')"
      using "1.IH" [OF True p "1.prems"(1)] by auto
    then show ?thesis
      using True p by (subst peek.simps) simp
  next
    case False
    then show ?thesis
      using "1.prems"(1) by (subst peek.simps) (simp add: py_index_def)
  qed
qed

lemma read_returns:
  assumes "0 \<le> ptr s" "never_fails w"
  shows "\<exists>b s' w'. SerialStream_read s w = Inr (b, s', w')"
  using peek_returns [OF assms] by (auto simp: SerialStream_read_def)

lemma advances_keeps:
  assumes "advances s w s' w'" "0 \<le> ptr s" "never_fails w"
  shows "0 \<le> ptr s'" and "never_fails w'"
  using assms extends_never_fails by (auto simp: advances_def)

lemma process_returns:
  "0 \<le> ptr s \<Longrightarrow> never_fails w \<Longrightarrow> \<exists>out s' w'. process h bo s w = Inr (out, s', w')"
  and processEscape_returns:
  "0 \<le> ptr s \<Longrightarrow> never_fails w \<Longrightarrow> \<exists>out s' w'. processEscape bo c s w = Inr (out, s', w')"
proof (induction h bo s w and bo c s w rule: process_processEscape.induct)
  case (4 bo s w)
  obtain b1 s1 w1 where r1: "SerialStream_read s w = Inr (b1, s1, w1)"
    using read_returns [OF "4.prems"] by auto
  have k: "0 \<le> ptr s1" "never_fails w1"
    using advances_keeps [OF read_advances(1) [OF r1] "4.prems"] by simp_all
  obtain b2 s2 w2 where r2: "SerialStream_read s1 w1 = Inr (b2, s2, w2)"
    using read_returns [OF k] by auto
  show ?case using r1 r2 by simp
next
  case (7 bo s w)
  obtain b1 s1 w1 where r1: "SerialStream_read s w = Inr (b1, s1, w1)"
    using read_returns [OF "7.prems"] by auto
  have k: "0 \<le> ptr s1" "never_fails w1"
    using advances_keeps [OF read_advances(1) [OF r1] "7.prems"] by simp_all
  show ?case
  proof (cases "chr (byteToInt bo b1) = getChar RecursiveByte")
    case True
    then show ?thesis using r1 by simp
  next
    case False
    then show ?thesis
      using "7.IH" [OF r1 refl refl False k] r1 by simp
  qed
next
  case (10 bo escape s w)
  show ?case
  proof (cases "find (\<lambda>h. escape = getChar h) escapeHandlers")
    case None
    then show ?thesis by (simp add: processEscape.simps)
  next
    case (Some h)
    then show ?thesis
      using "10.IH" [OF Some "10.prems"] by (simp add: processEscape.simps)
  qed
qed (use read_returns in \<open>fastforce+\<close>)

lemma process_toks_returns:
  "0 \<le> ptr s \<Longrightarrow> never_fails w \<Longrightarrow>
     \<exists>out s' w'. process_toks bo esc toks s w = Inr (out, s', w')"
proof (induction toks arbitrary: s w)
  case Nil
  show ?case by simp
next
  case (Cons t toks)
  define c where "c = (case t of [] \<Rightarrow> esc | x # xs \<Rightarrow> x)"
  obtain o1 s1 w1 where p: "processEscape bo c s w = Inr (o1, s1, w1)"
    using processEscape_returns [OF Cons.prems] by blast
  have k: "0 \<le> ptr s1" "never_fails w1"
    using advances_keeps [OF processEscape_advances [OF p] Cons.prems] by simp_all
  obtain o2 s2 w2 where "process_toks bo esc toks s1 w1 = Inr (o2, s2, w2)"
    using Cons.IH [OF k] by blast
  then show ?case using p by (cases t) (simp_all add: c_def)
qed

lemma process_format_returns:
  assumes "0 \<le> ptr s" "never_fails w"
  shows "\<exists>out s' w'. process_format bo esc f s w = Inr (out, s', w')"
proof -
  obtain t ts where ts: "split esc f = t # ts"
    using split_nonempty [of esc f] by (cases "split esc f") auto
  obtain out s' w' where "process_toks bo esc ts s w = Inr (out, s', w')"
    using process_toks_returns [OF assms] by blast
  then show ?thesis by (simp add: process_format_def ts)
qed

lemma process_formats_returns:
  "list_all (\<lambda>fs. 0 \<le> ptr (snd fs)) fss \<Longrightarrow> never_fails w \<Longrightarrow>
     \<exists>out ss' w'. process_formats bo esc fss w = Inr (out, ss', w')"
proof (induction fss arbitrary: w)
  case Nil
  show ?case by simp
next
  case (Cons fs fss)
  obtain f s where fs: "fs = (f, s)" by (cases fs)
  have s0: "0 \<le> ptr s" and rest: "list_all (\<lambda>fs. 0 \<le> ptr (snd fs)) fss"
    using Cons.prems(1) fs by simp_all
  obtain o1 s1 w1 where p: "process_format bo esc f s w = Inr (o1, s1, w1)"
    using process_format_returns [OF s0 Cons.prems(2)] by blast
  have "never_fails w1"
    using advances_keeps(2) [OF process_format_advances [OF p] s0 Cons.prems(2)] .
  then obtain o2 ss2 w2 where "process_formats bo esc fss w1 = Inr (o2, ss2, w2)"
    using Cons.IH [OF rest] by blast
  then show ?case using p fs by simp
qed

lemma Session_read_returns:
  assumes "cursors_nonneg sess" "never_fails (sw sess)"
  shows "\<exists>out sess'. Session_read sess = Inr (out, sess')
           \<and> cursors_nonneg sess' \<and> never_fails (sw sess')"
proof -
  have "set (map snd (zip (formats sess) (streams sess))) \<subseteq> set (streams sess)"
    by (auto dest: set_zip_rightD)
  then have "list_all (\<lambda>fs. 0 \<le> ptr (snd fs)) (zip (formats sess) (streams sess))"
    using assms(1) by (auto simp: cursors_nonneg_def list_all_iff)
  then obtain out ss' w' where
    "process_formats (byteorder sess) (escape sess) (zip (formats sess) (streams sess))
       (sw sess) = Inr (out, ss', w')"
    using process_formats_returns [OF _ assms(2)] by blast
  then obtain mid where d: "decode sess = Inr (out, mid)"
    by (simp add: decode_def)
  have nf: "never_fails (sw mid)"
    using extends_never_fails [OF decode_facts(1) [OF d] assms(2)] .
  have "ser (sw (reconcile mid)) = ser (sw mid) \<and> nread (sw (reconcile mid)) = nread (sw mid)"
    by (simp add: reconcile_def pop_def Let_def split: prod.splits)
  then have "never_fails (sw (reconcile mid))"
    using nf by (simp add: never_fails_def)
  then show ?thesis
    using d reconcile_nonneg [of mid] by (auto simp: Session_read_iff)
qed

lemma rounds_returns:
  "cursors_nonneg sess \<Longrightarrow> never_fails (sw sess) \<Longrightarrow>
     \<exists>ls sess'. rounds n sess = Inr (ls, sess')"
proof (induction n arbitrary: sess)
  case 0
  show ?case by simp
next
  case (Suc n)
  obtain line s1 where r: "Session_read sess = Inr (line, s1)"
    and k: "cursors_nonneg s1" "never_fails (sw s1)"
    using Session_read_returns [OF Suc.prems] by blast
  obtain ls sess' where "rounds n s1 = Inr (ls, sess')"
    using Suc.IH [OF k] by blast
  then show ?case using r by simp
qed

lemma reachable_inv:
  assumes "rounds n (Session_init (SerialWrapper_init dev) esc bo fmts bf) = Inr (ls, sess)"
  shows "session_inv sess" and "fmts \<noteq> Some [] \<Longrightarrow> tight sess"
    and "fmts \<noteq> Some [] \<Longrightarrow> streams sess \<noteq> []"
proof -
  show i: "session_inv sess"
    using rounds_inv [OF assms init_inv] by simp
  have n0: "cursors_nonneg (Session_init (SerialWrapper_init dev) esc bo fmts bf)"
    using init_inv [of dev esc bo fmts bf] by (simp add: session_inv_def)
  show t: "tight sess" if "fmts \<noteq> Some []"
    using rounds_tight [OF assms init_tight [OF that] n0] by simp
  show "streams sess \<noteq> []" if "fmts \<noteq> Some []"
    using t [OF that] by (simp add: tight_def)
qed

end
